theory Spec2Isabelle
  imports Main "HOL-Library.Word"
begin

section \<open>Machine types and constants\<close>

text \<open>
  The engine is the C program with scoped temporary pointers and an undo log.  Its
  \<open>size_t\<close> is taken as 64 bits wide and its \<open>int\<close> as 32 bits (the source says
  ``we assume size_t is larger than int''); both wrap around.  A tape cell is an
  \<open>unsigned char\<close>.
\<close>

type_synonym size_t = "64 word"
type_synonym cint = "32 word"
type_synonym byte = "8 word"

definition MAX_TEMP_DEPTH :: nat where
  "MAX_TEMP_DEPTH = 256"

definition MAX_CODE_SIZE :: nat where
  "MAX_CODE_SIZE = 65536"

definition INITIAL_TAPE_SIZE :: size_t where
  "INITIAL_TAPE_SIZE = 30000"

definition MAX_NESTING_DEPTH :: nat where
  "MAX_NESTING_DEPTH = 1024"

definition MAX_INSTRUCTIONS :: nat where
  "MAX_INSTRUCTIONS = 100000000"

definition SIZE_MAX :: size_t where
  "SIZE_MAX = - 1"

section \<open>The tape\<close>

text \<open>
  \<open>struct Tape\<close>: the allocated block \<open>cells\<close> (a list as long as the block), its
  \<open>size\<close> and the \<open>zero_offset\<close>.  The field \<open>size\<close> is written \<open>size'\<close>.
\<close>

record Tape =
  cells :: "byte list"
  size' :: size_t
  zero_offset :: size_t

text \<open>
  The environment decides which allocations succeed: \<open>heap n\<close> says that a request
  for \<open>n\<close> bytes is granted.  Bytes that \<open>realloc\<close> adds are indeterminate in C; the
  model fills them with a non-zero marker, so that no result can rest on fresh memory
  being zero.
\<close>

definition indeterminate :: byte where
  "indeterminate = 0xCD"

definition realloc_cells :: "byte list \<Rightarrow> nat \<Rightarrow> byte list" where
  "realloc_cells cs n = take n cs @ replicate (n - length cs) indeterminate"

definition memmove :: "byte list \<Rightarrow> nat \<Rightarrow> nat \<Rightarrow> nat \<Rightarrow> byte list" where
  "memmove cs dst src n = take dst cs @ take n (drop src cs) @ drop (dst + n) cs"

definition memset :: "byte list \<Rightarrow> nat \<Rightarrow> byte \<Rightarrow> nat \<Rightarrow> byte list" where
  "memset cs start v n = take start cs @ replicate n v @ drop (start + n) cs"

definition init_tape :: "(nat \<Rightarrow> bool) \<Rightarrow> size_t \<Rightarrow> int \<times> Tape" where
  "init_tape heap initial_size =
     (if \<not> heap (unat initial_size)
      then (- 1, \<lparr>cells = [], size' = 0, zero_offset = 0\<rparr>)
      else (0, \<lparr>cells = replicate (unat initial_size) 0,
                size' = initial_size,
                zero_offset = initial_size div 2\<rparr>))"

text \<open>
  The doubling loop of \<open>ensure_tape_capacity\<close>.  It leaves with the new size and the
  shift, or with the error ``maximum size reached''.  With \<open>new_size = 0\<close> the C loop
  would double zero for ever; that is the outcome \<open>Stuck\<close>, which the caller never
  meets because it starts the loop from a non-zero size.
\<close>

datatype grow = Grown size_t size_t | MaxSize | Stuck

function grow_loop :: "size_t \<Rightarrow> size_t \<Rightarrow> cint \<Rightarrow> size_t \<Rightarrow> size_t \<Rightarrow> size_t \<Rightarrow> grow" where
  "grow_loop required old_size index zo new_size shift_amount =
     (if required \<ge> new_size - shift_amount \<or> new_size < old_size + shift_amount then
        if new_size > SIZE_MAX div 2 then MaxSize
        else if new_size = 0 then Stuck
        else grow_loop required old_size index zo (new_size * 2)
               (if index <s 0 \<and> zo < scast (- index)
                then scast (- index) - zo + (new_size * 2) div 2
                else shift_amount)
      else Grown new_size shift_amount)"
  by pat_completeness auto
termination
proof (relation "measure (\<lambda>(required, old_size, index, zo, new_size, shift_amount).
                     2 ^ 64 - unat new_size)")
  show "wf (measure (\<lambda>(required :: size_t, old_size :: size_t, index :: cint, zo :: size_t,
                       new_size :: size_t, shift_amount :: size_t). 2 ^ 64 - unat new_size))"
    by simp
next
  fix required old_size zo new_size shift_amount :: size_t and index :: cint
  assume le: "\<not> SIZE_MAX div 2 < new_size" and nz: "new_size \<noteq> 0"
  have h: "unat new_size \<le> 9223372036854775807"
    using le by (simp add: SIZE_MAX_def word_less_nat_alt unat_div not_less)
  have pos: "0 < unat new_size"
    using nz by (simp add: unat_gt_0)
  have "unat (new_size * 2) = unat new_size * 2"
    using h by (simp add: unat_word_ariths)
  moreover have "unat new_size < 2 ^ 64"
    using h by simp
  ultimately show "((required, old_size, index, zo, new_size * 2,
            if index <s 0 \<and> zo < scast (- index)
            then scast (- index) - zo + new_size * 2 div 2 else shift_amount),
           required, old_size, index, zo, new_size, shift_amount)
          \<in> measure (\<lambda>(required, old_size, index, zo, new_size, shift_amount).
                       2 ^ 64 - unat new_size)"
    using pos h by simp
qed

declare grow_loop.simps [simp del]

text \<open>
  The end of the expansion: the new size is stored, the physical index is computed
  again and checked.
\<close>

definition finish_expand :: "Tape \<Rightarrow> size_t \<Rightarrow> cint \<Rightarrow> int \<times> Tape" where
  "finish_expand tape1 new_size index =
     (let tape2 = tape1\<lparr>size' := new_size\<rparr> in
      if \<not> 0 \<le>s index \<and> zero_offset tape2 < scast (- index) then (- 1, tape2)
      else
        let required_physical_index =
              (if 0 \<le>s index then zero_offset tape2 + scast index
               else zero_offset tape2 - scast (- index))
        in if required_physical_index \<ge> size' tape2 then (- 1, tape2) else (0, tape2))"

definition expand_tape :: "(nat \<Rightarrow> bool) \<Rightarrow> Tape \<Rightarrow> cint \<Rightarrow> size_t \<Rightarrow> int \<times> Tape" where
  "expand_tape heap tape index required_physical_index =
     (let old_size = size' tape;
          new_size0 = (if old_size = 0 then INITIAL_TAPE_SIZE else old_size);
          shift0 = (if index <s 0 \<and> zero_offset tape < scast (- index)
                    then scast (- index) - zero_offset tape + new_size0 div 2
                    else 0)
      in case grow_loop required_physical_index old_size index (zero_offset tape)
                new_size0 shift0 of
           MaxSize \<Rightarrow> (- 1, tape)
         | Stuck \<Rightarrow> (- 1, tape)
         | Grown new_size shift_amount \<Rightarrow>
             if \<not> heap (unat new_size) then (- 1, tape)
             else
               let tape1 = tape\<lparr>cells := realloc_cells (cells tape) (unat new_size)\<rparr> in
               if shift_amount > 0 \<and> shift_amount < new_size \<and> old_size < new_size then
                 if shift_amount + old_size > new_size then (- 1, tape1)
                 else
                   let moved = memmove (cells tape1) (unat shift_amount) 0 (unat old_size);
                       left_zeroed = memset moved 0 0 (unat shift_amount);
                       right_zero_start = shift_amount + old_size;
                       right_zeroed =
                         (if right_zero_start < new_size
                          then memset left_zeroed (unat right_zero_start) 0
                                 (unat (new_size - right_zero_start))
                          else left_zeroed)
                   in finish_expand
                        (tape1\<lparr>cells := right_zeroed,
                               zero_offset := zero_offset tape + shift_amount\<rparr>)
                        new_size index
               else if new_size > old_size then
                 finish_expand
                   (tape1\<lparr>cells := memset (cells tape1) (unat old_size) 0
                                      (unat (new_size - old_size))\<rparr>)
                   new_size index
               else finish_expand tape1 new_size index)"

text \<open>
  \<open>ensure_tape_capacity\<close> returns the C status (0 or -1) and the tape as the call
  leaves it.  For a negative index larger than the offset the required physical index
  is the placeholder 0.
\<close>

definition ensure_tape_capacity :: "(nat \<Rightarrow> bool) \<Rightarrow> Tape \<Rightarrow> cint \<Rightarrow> int \<times> Tape" where
  "ensure_tape_capacity heap tape index =
     (if 0 \<le>s index \<and> zero_offset tape > SIZE_MAX - scast index then (- 1, tape)
      else
        let required_physical_index =
              (if 0 \<le>s index then zero_offset tape + scast index
               else if zero_offset tape < scast (- index) then 0
               else zero_offset tape - scast (- index))
        in if required_physical_index \<ge> size' tape
           then expand_tape heap tape index required_physical_index
           else (0, tape))"

text \<open>
  The physical index the engine forms from a logical one: \<open>zero_offset + index\<close> in
  \<open>size_t\<close> arithmetic, the \<open>int\<close> converted to \<open>size_t\<close> first.
\<close>

definition physical_index :: "Tape \<Rightarrow> cint \<Rightarrow> size_t" where
  "physical_index tape index = zero_offset tape + scast index"

definition addressable :: "Tape \<Rightarrow> cint \<Rightarrow> bool" where
  "addressable t index \<longleftrightarrow>
     0 \<le> uint (zero_offset t) + sint index \<and> uint (zero_offset t) + sint index < uint (size' t)"

section \<open>The interpreter state\<close>

datatype PairType = TYPE_BRACKET | TYPE_BRACE

record MapStackEntry =
  position :: nat
  pair_type :: PairType

record UndoEntry =
  logical_index :: cint
  original_value :: byte
  stack_level :: nat

text \<open>
  \<open>struct Interpreter\<close>.  \<open>code_length\<close> is the length of \<open>code\<close>; the undo log is the
  list of its live entries \<open>undo_log[0 .. undo_log_count)\<close>, so \<open>undo_log_count\<close> is its
  length.  Counters that the code keeps below a fixed bound (\<open>pointer_stack_top\<close>,
  \<open>undo_log_capacity\<close>, positions in the code) are natural numbers.  \<open>input'\<close> holds
  the bytes still to be read, \<open>output'\<close> the bytes written (the fields \<open>input\<close> and
  \<open>output\<close>).
\<close>

record Interpreter =
  code :: string
  bracket_map :: "int list"
  brace_map :: "int list"
  tape :: Tape
  pointer_stack :: "cint list"
  pointer_stack_top :: nat
  undo_log :: "UndoEntry list"
  undo_log_capacity :: nat
  input' :: "byte list"
  output' :: "byte list"

definition code_length :: "Interpreter \<Rightarrow> nat" where
  "code_length interp = length (code interp)"

definition undo_log_count :: "Interpreter \<Rightarrow> nat" where
  "undo_log_count interp = length (undo_log interp)"

text \<open>
  What a call can end with besides a result.  \<open>OutOfBounds\<close> is no return value of the
  C program: it stands for an access outside the allocated block, which is undefined
  behaviour there.
\<close>

datatype error =
    NestingDepthExceeded nat
  | UnmatchedClose nat
  | MismatchedPair nat nat
  | UnmatchedOpen nat
  | CodeTooLarge
  | AllocationFailed
  | CapacityError
  | OutputError
  | InvalidJumpTarget
  | PointerStackOverflow
  | PointerStackUnderflow
  | InstructionLimit
  | OutOfBounds

text \<open>The environment: which allocations succeed, and which writes to the output do
  (asked with the number of bytes already written).\<close>

record Env =
  heap :: "nat \<Rightarrow> bool"
  fputc_ok :: "nat \<Rightarrow> bool"

section \<open>Filtering the source and building the jump tables\<close>

definition is_command_char :: "char \<Rightarrow> bool" where
  "is_command_char c \<longleftrightarrow> c \<in> set ''+-<>.,[]{}''"

definition isspace :: "char \<Rightarrow> bool" where
  "isspace c \<longleftrightarrow> c \<in> {CHR '' '', CHR 0x09, CHR 0x0A, CHR 0x0B, CHR 0x0C, CHR 0x0D}"

fun filter_loop :: "string \<Rightarrow> bool \<Rightarrow> string" where
  "filter_loop [] in_comment = []"
| "filter_loop (c # cs) in_comment =
     (if in_comment then filter_loop cs (c \<noteq> CHR 0x0A)
      else if c = CHR ''#'' then filter_loop cs True
      else if \<not> isspace c \<and> is_command_char c then c # filter_loop cs False
      else filter_loop cs False)"

definition filter_code :: "string \<Rightarrow> string" where
  "filter_code inp = filter_loop inp False"

text \<open>The conversion of a position (\<open>size_t\<close>) to the \<open>int\<close> stored in a jump table.\<close>

definition int_of_pos :: "nat \<Rightarrow> int" where
  "int_of_pos p = sint (word_of_nat p :: cint)"

text \<open>
  The scan of \<open>build_maps\<close>: the rest of the code, the position \<open>i\<close> of its first
  character, the stack of open symbols (top first) and the two tables.
\<close>

fun build_scan :: "string \<Rightarrow> nat \<Rightarrow> MapStackEntry list \<Rightarrow> int list \<Rightarrow> int list \<Rightarrow>
    error + (MapStackEntry list \<times> int list \<times> int list)" where
  "build_scan [] i map_stack bm cm = Inr (map_stack, bm, cm)"
| "build_scan (c # cs) i map_stack bm cm =
     (if c = CHR ''['' then
        if length map_stack \<ge> MAX_NESTING_DEPTH then Inl (NestingDepthExceeded i)
        else build_scan cs (i + 1)
               (\<lparr>position = i, pair_type = TYPE_BRACKET\<rparr> # map_stack) bm cm
      else if c = CHR ''{'' then
        if length map_stack \<ge> MAX_NESTING_DEPTH then Inl (NestingDepthExceeded i)
        else build_scan cs (i + 1)
               (\<lparr>position = i, pair_type = TYPE_BRACE\<rparr> # map_stack) bm cm
      else if c = CHR '']'' then
        (case map_stack of
           [] \<Rightarrow> Inl (UnmatchedClose i)
         | opened # rest \<Rightarrow>
             if pair_type opened \<noteq> TYPE_BRACKET then Inl (MismatchedPair i (position opened))
             else build_scan cs (i + 1) rest
                    ((bm[i := int_of_pos (position opened)])[position opened := int_of_pos i]) cm)
      else if c = CHR ''}'' then
        (case map_stack of
           [] \<Rightarrow> Inl (UnmatchedClose i)
         | opened # rest \<Rightarrow>
             if pair_type opened \<noteq> TYPE_BRACE then Inl (MismatchedPair i (position opened))
             else build_scan cs (i + 1) rest bm
                    ((cm[i := int_of_pos (position opened)])[position opened := int_of_pos i]))
      else build_scan cs (i + 1) map_stack bm cm)"

definition build_maps :: "Interpreter \<Rightarrow> error + Interpreter" where
  "build_maps interp =
     (case build_scan (code interp) 0 [] (bracket_map interp) (brace_map interp) of
        Inl e \<Rightarrow> Inl e
      | Inr (map_stack, bm, cm) \<Rightarrow>
          (case map_stack of
             unmatched # rest \<Rightarrow> Inl (UnmatchedOpen (position unmatched))
           | [] \<Rightarrow> Inr (interp\<lparr>bracket_map := bm, brace_map := cm\<rparr>)))"

text \<open>
  \<open>create_interpreter\<close>: filter, check the size, set both tables to -1, make the tape,
  the pointer stack and the empty undo log of capacity 16, then build the tables.
\<close>

definition create_interpreter :: "Env \<Rightarrow> string \<Rightarrow> byte list \<Rightarrow> error + Interpreter" where
  "create_interpreter env source inp =
     (let filtered = filter_code source in
      if length filtered > MAX_CODE_SIZE then Inl CodeTooLarge
      else if \<not> heap env (4 * length filtered) then Inl AllocationFailed
      else
        case init_tape (heap env) INITIAL_TAPE_SIZE of (rc, tape0) \<Rightarrow>
          if rc \<noteq> 0 then Inl AllocationFailed
          else if \<not> heap env (16 * 16) then Inl AllocationFailed
          else build_maps
                 \<lparr>code = filtered,
                  bracket_map = replicate (length filtered) (- 1),
                  brace_map = replicate (length filtered) (- 1),
                  tape = tape0,
                  pointer_stack = replicate MAX_TEMP_DEPTH 0,
                  pointer_stack_top = 0,
                  undo_log = [],
                  undo_log_capacity = 16,
                  input' = inp,
                  output' = []\<rparr>)"

section \<open>The undo log\<close>

definition in_block :: "Tape \<Rightarrow> size_t \<Rightarrow> bool" where
  "in_block t phys \<longleftrightarrow> unat phys < length (cells t)"

definition cell_at :: "Tape \<Rightarrow> size_t \<Rightarrow> byte" where
  "cell_at t phys = cells t ! unat phys"

definition store :: "Tape \<Rightarrow> size_t \<Rightarrow> byte \<Rightarrow> Tape" where
  "store t phys v = t\<lparr>cells := (cells t)[unat phys := v]\<rparr>"

text \<open>
  The search of \<open>log_undo_entry\<close>, from the newest entry down: is there an entry for
  this logical index at this level or above?
\<close>

definition logged :: "UndoEntry list \<Rightarrow> cint \<Rightarrow> nat \<Rightarrow> bool" where
  "logged log idx level =
     list_ex (\<lambda>e. logical_index e = idx \<and> stack_level e \<ge> level) (rev log)"

text \<open>
  \<open>log_undo_entry\<close> is a \<open>void\<close> function: every \<open>Inr\<close> is a plain return, whether
  an entry was recorded or not.  \<open>Inl\<close> is only the read outside the block.
\<close>

definition log_undo_entry :: "(nat \<Rightarrow> bool) \<Rightarrow> Interpreter \<Rightarrow> cint \<Rightarrow> error + Interpreter" where
  "log_undo_entry hp interp idx =
     (if pointer_stack_top interp = 0 then Inr interp
      else if logged (undo_log interp) idx (pointer_stack_top interp) then Inr interp
      else
        let full = undo_log_count interp \<ge> undo_log_capacity interp;
            new_capacity = (if undo_log_capacity interp = 0 then 16
                            else undo_log_capacity interp * 2)
        in if full \<and> new_capacity > MAX_CODE_SIZE * 4 then Inr interp
           else if full \<and> \<not> hp (new_capacity * 16) then Inr interp
           else
             let interp1 = (if full then interp\<lparr>undo_log_capacity := new_capacity\<rparr>
                            else interp)
             in case ensure_tape_capacity hp (tape interp1) idx of (rc, tape1) \<Rightarrow>
                  if rc \<noteq> 0 then Inr (interp1\<lparr>tape := tape1\<rparr>)
                  else if \<not> in_block tape1 (physical_index tape1 idx) then Inl OutOfBounds
                  else Inr (interp1\<lparr>tape := tape1,
                              undo_log := undo_log interp1 @
                                [\<lparr>logical_index = idx,
                                  original_value = cell_at tape1 (physical_index tape1 idx),
                                  stack_level = pointer_stack_top interp\<rparr>]\<rparr>))"

text \<open>
  The loop of \<open>restore_undo_entries\<close>, over the log with the newest entry first.  It
  returns the entries that stay (newest first) and the tape.
\<close>

fun restore_loop :: "(nat \<Rightarrow> bool) \<Rightarrow> nat \<Rightarrow> UndoEntry list \<Rightarrow> Tape \<Rightarrow>
    error + (UndoEntry list \<times> Tape)" where
  "restore_loop hp target_level [] t = Inr ([], t)"
| "restore_loop hp target_level (entry # older) t =
     (if stack_level entry = target_level then
        case ensure_tape_capacity hp t (logical_index entry) of (rc, t1) \<Rightarrow>
          if rc \<noteq> 0 then Inr (entry # older, t1)
          else if \<not> in_block t1 (physical_index t1 (logical_index entry)) then Inl OutOfBounds
          else restore_loop hp target_level older
                 (store t1 (physical_index t1 (logical_index entry)) (original_value entry))
      else Inr (entry # older, t))"

definition restore_undo_entries :: "(nat \<Rightarrow> bool) \<Rightarrow> Interpreter \<Rightarrow> error + Interpreter" where
  "restore_undo_entries hp interp =
     (case restore_loop hp (pointer_stack_top interp) (rev (undo_log interp)) (tape interp) of
        Inl e \<Rightarrow> Inl e
      | Inr (kept, t) \<Rightarrow> Inr (interp\<lparr>undo_log := rev kept, tape := t\<rparr>))"

section \<open>The execution engine\<close>

text \<open>
  The state of the loop in \<open>run\<close>: the interpreter and the locals \<open>ip\<close>,
  \<open>current_ptr\<close> (the slot of the pointer stack it points to) and
  \<open>instruction_count\<close>.
\<close>

record Config =
  interp :: Interpreter
  ip :: nat
  current_ptr :: nat
  instruction_count :: nat

text \<open>A failing step carries the interpreter as the step leaves it.\<close>

type_synonym outcome = "(error \<times> Interpreter) + Config"

text \<open>
  The opening every cell command shares: read the logical index through
  \<open>current_ptr\<close>, ensure the capacity, form the physical index.
\<close>

definition locate :: "Env \<Rightarrow> Config \<Rightarrow> (error \<times> Interpreter) + (Interpreter \<times> cint \<times> size_t)" where
  "locate env c =
     (let current_logical_index = pointer_stack (interp c) ! current_ptr c in
      case ensure_tape_capacity (heap env) (tape (interp c)) current_logical_index of
        (rc, t1) \<Rightarrow>
          if rc \<noteq> 0 then Inl (CapacityError, (interp c)\<lparr>tape := t1\<rparr>)
          else Inr ((interp c)\<lparr>tape := t1\<rparr>, current_logical_index,
                    physical_index t1 current_logical_index))"

definition move_pointer :: "Env \<Rightarrow> Config \<Rightarrow> cint \<Rightarrow> outcome" where
  "move_pointer env c delta =
     (let old_idx = pointer_stack (interp c) ! current_ptr c;
          next_logical_index = old_idx + delta
      in case ensure_tape_capacity (heap env) (tape (interp c)) next_logical_index of
           (rc, t1) \<Rightarrow>
             if rc \<noteq> 0 then Inl (CapacityError, (interp c)\<lparr>tape := t1\<rparr>)
             else Inr (c\<lparr>interp := (interp c)
                          \<lparr>tape := t1,
                           pointer_stack :=
                             (pointer_stack (interp c))[current_ptr c := next_logical_index]\<rparr>\<rparr>))"

text \<open>
  \<open>+\<close>, \<open>-\<close> and \<open>,\<close>: the old value is read, the undo entry recorded, then the cell
  written at the physical index computed before the recorder ran.
\<close>

definition mutate :: "Env \<Rightarrow> Config \<Rightarrow> Interpreter \<Rightarrow> cint \<Rightarrow> size_t \<Rightarrow> (byte \<Rightarrow> byte) \<Rightarrow> outcome" where
  "mutate env c i1 idx phys f =
     (if \<not> in_block (tape i1) phys then Inl (OutOfBounds, i1)
      else case log_undo_entry (heap env) i1 idx of
             Inl e \<Rightarrow> Inl (e, i1)
           | Inr i2 \<Rightarrow>
               if \<not> in_block (tape i2) phys then Inl (OutOfBounds, i2)
               else Inr (c\<lparr>interp := i2\<lparr>tape := store (tape i2) phys
                                                  (f (cell_at (tape i2) phys))\<rparr>\<rparr>))"

definition jump :: "Config \<Rightarrow> Interpreter \<Rightarrow> outcome" where
  "jump c i1 =
     (let jump_target = bracket_map i1 ! ip c in
      if jump_target = - 1 then Inl (InvalidJumpTarget, i1)
      else Inr (c\<lparr>interp := i1, ip := nat (jump_target mod 2 ^ 64)\<rparr>))"

definition exec :: "Env \<Rightarrow> char \<Rightarrow> Config \<Rightarrow> outcome" where
  "exec env command c =
     (if command = CHR ''>'' then move_pointer env c 1
      else if command = CHR ''<'' then move_pointer env c (- 1)
      else if command = CHR ''+'' then
        (case locate env c of Inl e \<Rightarrow> Inl e
         | Inr (i1, idx, phys) \<Rightarrow> mutate env c i1 idx phys (\<lambda>v. v + 1))
      else if command = CHR ''-'' then
        (case locate env c of Inl e \<Rightarrow> Inl e
         | Inr (i1, idx, phys) \<Rightarrow> mutate env c i1 idx phys (\<lambda>v. v - 1))
      else if command = CHR ''.'' then
        (case locate env c of Inl e \<Rightarrow> Inl e
         | Inr (i1, idx, phys) \<Rightarrow>
             if \<not> in_block (tape i1) phys then Inl (OutOfBounds, i1)
             else if \<not> fputc_ok env (length (output' i1)) then Inl (OutputError, i1)
             else Inr (c\<lparr>interp := i1\<lparr>output' := output' i1 @ [cell_at (tape i1) phys]\<rparr>\<rparr>))
      else if command = CHR '','' then
        (case locate env c of Inl e \<Rightarrow> Inl e
         | Inr (i1, idx, phys) \<Rightarrow>
             let new_val = (case input' i1 of [] \<Rightarrow> 0 | b # bs \<Rightarrow> b);
                 i1' = i1\<lparr>input' := tl (input' i1)\<rparr>
             in mutate env c i1' idx phys (\<lambda>v. new_val))
      else if command = CHR ''['' then
        (case locate env c of Inl e \<Rightarrow> Inl e
         | Inr (i1, idx, phys) \<Rightarrow>
             if \<not> in_block (tape i1) phys then Inl (OutOfBounds, i1)
             else if cell_at (tape i1) phys = 0 then jump c i1
             else Inr (c\<lparr>interp := i1\<rparr>))
      else if command = CHR '']'' then
        (case locate env c of Inl e \<Rightarrow> Inl e
         | Inr (i1, idx, phys) \<Rightarrow>
             if \<not> in_block (tape i1) phys then Inl (OutOfBounds, i1)
             else if cell_at (tape i1) phys \<noteq> 0 then jump c i1
             else Inr (c\<lparr>interp := i1\<rparr>))
      else if command = CHR ''{'' then
        (let current_logical_index = pointer_stack (interp c) ! current_ptr c in
         if pointer_stack_top (interp c) + 1 \<ge> MAX_TEMP_DEPTH
         then Inl (PointerStackOverflow, interp c)
         else
           let new_top = pointer_stack_top (interp c) + 1 in
           Inr (c\<lparr>interp := (interp c)
                    \<lparr>pointer_stack_top := new_top,
                     pointer_stack := (pointer_stack (interp c))[new_top := current_logical_index]\<rparr>,
                  current_ptr := new_top\<rparr>))
      else if command = CHR ''}'' then
        (if pointer_stack_top (interp c) = 0 then Inl (PointerStackUnderflow, interp c)
         else case restore_undo_entries (heap env) (interp c) of
                Inl e \<Rightarrow> Inl (e, interp c)
              | Inr i1 \<Rightarrow>
                  Inr (c\<lparr>interp := i1\<lparr>pointer_stack_top := pointer_stack_top i1 - 1\<rparr>,
                         current_ptr := pointer_stack_top i1 - 1\<rparr>))
      else Inr c)"

text \<open>One turn of the loop: fetch, count, dispatch, then \<open>ip++\<close>.\<close>

definition run_step :: "Env \<Rightarrow> Config \<Rightarrow> outcome" where
  "run_step env c =
     (let command = code (interp c) ! ip c;
          c1 = c\<lparr>instruction_count := instruction_count c + 1\<rparr>
      in case exec env command c1 of
           Inl e \<Rightarrow> Inl e
         | Inr c2 \<Rightarrow> Inr (c2\<lparr>ip := ip c2 + 1\<rparr>))"

definition running :: "Config \<Rightarrow> bool" where
  "running c \<longleftrightarrow> ip c < code_length (interp c) \<and> instruction_count c < MAX_INSTRUCTIONS"

lemma move_pointer_count:
  "move_pointer env c d = Inr c' \<Longrightarrow> instruction_count c' = instruction_count c"
  by (auto simp: move_pointer_def Let_def split: prod.splits if_splits)

lemma mutate_count:
  "mutate env c i1 idx phys f = Inr c' \<Longrightarrow> instruction_count c' = instruction_count c"
  by (auto simp: mutate_def split: sum.splits if_splits)

lemma jump_count:
  "jump c i1 = Inr c' \<Longrightarrow> instruction_count c' = instruction_count c"
  by (auto simp: jump_def Let_def split: if_splits)

lemma exec_count:
  "exec env command c = Inr c' \<Longrightarrow> instruction_count c' = instruction_count c"
  unfolding exec_def
  by (simp split: if_splits sum.splits prod.splits add: Let_def)
     (auto dest: move_pointer_count mutate_count jump_count)

lemma run_step_count:
  "run_step env c = Inr c' \<Longrightarrow> instruction_count c' = instruction_count c + 1"
  by (auto simp: run_step_def Let_def split: sum.splits dest!: exec_count)

function run_loop :: "Env \<Rightarrow> Config \<Rightarrow> outcome" where
  "run_loop env c =
     (if running c then
        case run_step env c of
          Inl e \<Rightarrow> Inl e
        | Inr c' \<Rightarrow> run_loop env c'
      else Inr c)"
  by pat_completeness auto
termination
  by (relation "measure (\<lambda>(env, c). MAX_INSTRUCTIONS - instruction_count c)")
     (auto simp: running_def dest!: run_step_count)

declare run_loop.simps [simp del]

text \<open>The forced close of the scopes still open when the program ends.\<close>

function cleanup :: "(nat \<Rightarrow> bool) \<Rightarrow> Interpreter \<Rightarrow> error + Interpreter" where
  "cleanup hp i =
     (if pointer_stack_top i > 0 then
        case restore_undo_entries hp i of
          Inl e \<Rightarrow> Inl e
        | Inr i1 \<Rightarrow> cleanup hp (i1\<lparr>pointer_stack_top := pointer_stack_top i1 - 1\<rparr>)
      else Inr i)"
  by pat_completeness auto
termination
  by (relation "measure (\<lambda>(hp, i). pointer_stack_top i)")
     (auto simp: restore_undo_entries_def split: sum.splits prod.splits)

declare cleanup.simps [simp del]

text \<open>\<open>run\<close>: \<open>None\<close> is the return value 0, \<open>Some e\<close> the return value -1.\<close>

definition start :: "Interpreter \<Rightarrow> Config" where
  "start i =
     \<lparr>interp = i\<lparr>pointer_stack_top := 0, pointer_stack := (pointer_stack i)[0 := 0]\<rparr>,
      ip = 0, current_ptr = 0, instruction_count = 0\<rparr>"

definition run :: "Env \<Rightarrow> Interpreter \<Rightarrow> error option \<times> Interpreter" where
  "run env i =
     (case run_loop env (start i) of
           Inl (e, i1) \<Rightarrow> (Some e, i1)
         | Inr c \<Rightarrow>
             if instruction_count c \<ge> MAX_INSTRUCTIONS then (Some InstructionLimit, interp c)
             else (case cleanup (heap env) (interp c) of
                     Inl e \<Rightarrow> (Some e, interp c)
                   | Inr i2 \<Rightarrow> (None, i2)))"

text \<open>
  The first \<open>n\<close> turns of the loop, for statements about the states an execution
  passes through.
\<close>

fun run_for :: "Env \<Rightarrow> nat \<Rightarrow> Config \<Rightarrow> outcome" where
  "run_for env 0 c = Inr c"
| "run_for env (Suc n) c =
     (if running c then
        case run_step env c of
          Inl e \<Rightarrow> Inl e
        | Inr c' \<Rightarrow> run_for env n c'
      else Inr c)"

text \<open>
  An environment in which every allocation and every write succeeds, and the
  interpreter that \<open>create_interpreter\<close> hands over in it, given the filtered code, the
  two tables and the input.
\<close>

definition all_ok :: Env where
  "all_ok = \<lparr>heap = (\<lambda>n. True), fputc_ok = (\<lambda>n. True)\<rparr>"

definition fresh :: "string \<Rightarrow> int list \<Rightarrow> int list \<Rightarrow> byte list \<Rightarrow> Interpreter" where
  "fresh filtered bm cm inp =
     \<lparr>code = filtered, bracket_map = bm, brace_map = cm,
      tape = \<lparr>cells = replicate 30000 0, size' = 30000, zero_offset = 15000\<rparr>,
      pointer_stack = replicate 256 0, pointer_stack_top = 0,
      undo_log = [], undo_log_capacity = 16, input' = inp, output' = []\<rparr>"

section \<open>Invariants of the tape\<close>

text \<open>
  A tape is in order when the block is as long as \<open>size\<close> says and the offset lies
  inside it.  A logical index is covered when, for a non-negative index, the sum
  \<open>zero_offset + index\<close> neither overflows nor reaches \<open>size\<close>: the two tests that
  \<open>ensure_tape_capacity\<close> makes.  It is addressable in the sense of the specification
  when \<open>0 \<le> zero_offset + index < size\<close> holds for the numbers themselves.
\<close>

definition tape_ok :: "Tape \<Rightarrow> bool" where
  "tape_ok t \<longleftrightarrow> length (cells t) = unat (size' t) \<and> zero_offset t < size' t"

definition covered :: "Tape \<Rightarrow> cint \<Rightarrow> bool" where
  "covered t index \<longleftrightarrow>
     (0 \<le>s index \<longrightarrow> \<not> zero_offset t > SIZE_MAX - scast index
                      \<and> zero_offset t + scast index < size' t)"

definition grows :: "Tape \<Rightarrow> Tape \<Rightarrow> bool" where
  "grows t t' \<longleftrightarrow> tape_ok t' \<and> zero_offset t' = zero_offset t
                 \<and> (\<exists>k. cells t' = cells t @ replicate k 0)"

definition reachable_cell :: "Tape \<Rightarrow> cint \<Rightarrow> bool" where
  "reachable_cell t index \<longleftrightarrow> covered t index \<and> in_block t (physical_index t index)"

definition append_fails :: "(nat \<Rightarrow> bool) \<Rightarrow> Interpreter \<Rightarrow> bool" where
  "append_fails hp i \<longleftrightarrow>
     undo_log_count i \<ge> undo_log_capacity i \<and>
     ((if undo_log_capacity i = 0 then 16 else undo_log_capacity i * 2) > MAX_CODE_SIZE * 4
      \<or> \<not> hp ((if undo_log_capacity i = 0 then 16 else undo_log_capacity i * 2) * 16))"

definition grown_capacity :: "Interpreter \<Rightarrow> nat" where
  "grown_capacity i =
     (if undo_log_count i \<ge> undo_log_capacity i
      then (if undo_log_capacity i = 0 then 16 else undo_log_capacity i * 2)
      else undo_log_capacity i)"

definition unwind :: "size_t \<Rightarrow> UndoEntry list \<Rightarrow> byte list \<Rightarrow> byte list" where
  "unwind zo es cs =
     fold (\<lambda>e cs. cs[unat (zo + scast (logical_index e)) := original_value e]) es cs"

definition log_ok :: "Interpreter \<Rightarrow> bool" where
  "log_ok i \<longleftrightarrow>
     sorted (map stack_level (undo_log i))
     \<and> (\<forall>e \<in> set (undo_log i). 1 \<le> stack_level e \<and> stack_level e \<le> pointer_stack_top i
                                 \<and> reachable_cell (tape i) (logical_index e))
     \<and> distinct (map (\<lambda>e. (logical_index e, stack_level e)) (undo_log i))"

definition interp_ok :: "Interpreter \<Rightarrow> bool" where
  "interp_ok i \<longleftrightarrow>
     tape_ok (tape i) \<and> length (pointer_stack i) = MAX_TEMP_DEPTH
     \<and> pointer_stack_top i < MAX_TEMP_DEPTH \<and> log_ok i"

definition config_ok :: "Config \<Rightarrow> bool" where
  "config_ok c \<longleftrightarrow> interp_ok (interp c) \<and> current_ptr c = pointer_stack_top (interp c)"

definition record_entry :: "(nat \<Rightarrow> bool) \<Rightarrow> Interpreter \<Rightarrow> cint \<Rightarrow> Interpreter" where
  "record_entry hp i idx =
     (if pointer_stack_top i = 0 \<or> logged (undo_log i) idx (pointer_stack_top i)
         \<or> append_fails hp i
      then i
      else i\<lparr>undo_log_capacity := grown_capacity i,
             undo_log := undo_log i @
               [\<lparr>logical_index = idx,
                 original_value = cell_at (tape i) (physical_index (tape i) idx),
                 stack_level = pointer_stack_top i\<rparr>]\<rparr>)"

text \<open>A state with 256 scopes on the pointer stack, about to execute \<open>{\<close>.\<close>

definition full_stack :: Config where
  "full_stack = \<lparr>interp = (fresh ''{'' [- 1] [- 1] [])\<lparr>pointer_stack_top := 255\<rparr>,
                 ip = 0, current_ptr = 255, instruction_count = 255\<rparr>"

text \<open>The cell under the current pointer.\<close>

definition current_cell :: "Config \<Rightarrow> byte" where
  "current_cell c =
     cell_at (tape (interp c))
       (physical_index (tape (interp c)) (pointer_stack (interp c) ! current_ptr c))"

text \<open>The interpreter created for the program \<open>[]\<close>.\<close>

definition empty_loop :: Interpreter where
  "empty_loop = fresh ''[]'' [1, 0] [- 1, - 1] []"

text \<open>The interpreter created for the program \<open>,\<close> with no input.\<close>

definition read_nothing :: Interpreter where
  "read_nothing = fresh '','' [- 1] [- 1] []"

text \<open>
  The interpreter created for the program \<open>+,\<close> with no input, and its state after
  the first turn of the loop, with 1 in the current cell.
\<close>

definition clear_demo :: Interpreter where
  "clear_demo = fresh ''+,'' [- 1, - 1] [- 1, - 1] []"

definition clear_state :: Config where
  "clear_state =
     \<lparr>interp = (interp (start clear_demo))
        \<lparr>tape := \<lparr>cells = (replicate 30000 0)[15000 := 1], size' = 30000,
                  zero_offset = 15000\<rparr>\<rparr>,
      ip = 1, current_ptr = 0, instruction_count = 1\<rparr>"

text \<open>The interpreter created for the program \<open>,\<close> with the input bytes 65 and 66.\<close>

definition read_demo :: Interpreter where
  "read_demo = fresh '','' [- 1] [- 1] [65, 66]"

text \<open>The interpreter created for the program \<open>++[>++<-]\<close>.\<close>

definition doubling :: "byte list \<Rightarrow> Interpreter" where
  "doubling inp = fresh ''++[>++<-]'' [- 1, - 1, 8, - 1, - 1, - 1, - 1, - 1, 2]
     [- 1, - 1, - 1, - 1, - 1, - 1, - 1, - 1, - 1] inp"

text \<open>
  The nesting rule in the words of the specification: every closer closes the nearest
  unclosed opener, which must be of its own family, and no opener is left at the end.
  The list \<open>opens\<close> holds the unclosed openers, the nearest first.
\<close>

fun well_nested :: "char list \<Rightarrow> string \<Rightarrow> bool" where
  "well_nested opens [] = (opens = [])"
| "well_nested opens (c # cs) =
     (if c = CHR ''['' \<or> c = CHR ''{'' then well_nested (c # opens) cs
      else if c = CHR '']'' then
        (case opens of [] \<Rightarrow> False | opn # rest \<Rightarrow> opn = CHR ''['' \<and> well_nested rest cs)
      else if c = CHR ''}'' then
        (case opens of [] \<Rightarrow> False | opn # rest \<Rightarrow> opn = CHR ''{'' \<and> well_nested rest cs)
      else well_nested opens cs)"

text \<open>The largest number of openers unclosed at one time, starting from \<open>d\<close> of them.\<close>

fun deepest :: "nat \<Rightarrow> string \<Rightarrow> nat" where
  "deepest d [] = d"
| "deepest d (c # cs) =
     max d (deepest (if c = CHR ''['' \<or> c = CHR ''{'' then d + 1
                     else if c = CHR '']'' \<or> c = CHR ''}'' then d - 1
                     else d) cs)"

definition opener :: "MapStackEntry \<Rightarrow> char" where
  "opener e = (if pair_type e = TYPE_BRACKET then CHR ''['' else CHR ''{'')"

text \<open>
  The code strictly between two positions, and the partner relation of the
  specification: the closer at \<open>q\<close> closes the opener at \<open>p\<close> when the code between
  them is well nested by itself, so that the opener at \<open>p\<close> is the nearest one still
  unclosed when the scan reaches \<open>q\<close>.
\<close>

definition between :: "string \<Rightarrow> nat \<Rightarrow> nat \<Rightarrow> string" where
  "between cd p q = take (q - Suc p) (drop (Suc p) cd)"

definition closes :: "string \<Rightarrow> nat \<Rightarrow> nat \<Rightarrow> bool" where
  "closes cd p q \<longleftrightarrow> p < q \<and> q < length cd \<and> well_nested [] (between cd p q)"

text \<open>
  What a finished table has to say about one family of symbols: every opener has its
  closer recorded, every closer the opener it closes, each at the other's position.
\<close>

definition partners :: "char \<Rightarrow> char \<Rightarrow> string \<Rightarrow> int list \<Rightarrow> bool" where
  "partners opn cls cd m \<longleftrightarrow>
     (\<forall>p < length cd.
        (cd ! p = opn \<longrightarrow>
           (\<exists>q < length cd. closes cd p q \<and> cd ! q = cls \<and> m ! p = int q \<and> m ! q = int p))
      \<and> (cd ! p = cls \<longrightarrow>
           (\<exists>q < length cd. closes cd q p \<and> cd ! q = opn \<and> m ! p = int q \<and> m ! q = int p)))"

definition open_positions :: "PairType \<Rightarrow> MapStackEntry list \<Rightarrow> nat set" where
  "open_positions ty st = position ` {e \<in> set st. pair_type e = ty}"

definition scan_inv ::
    "char \<Rightarrow> char \<Rightarrow> PairType \<Rightarrow> string \<Rightarrow> nat \<Rightarrow> MapStackEntry list \<Rightarrow> int list \<Rightarrow> bool" where
  "scan_inv opn cls ty cd i st m \<longleftrightarrow>
     (\<forall>p < i. cd ! p = opn \<longrightarrow>
        p \<in> open_positions ty st
        \<or> (\<exists>q. closes cd p q \<and> q < i \<and> cd ! q = cls \<and> m ! p = int q \<and> m ! q = int p))
     \<and> (\<forall>p < i. cd ! p = cls \<longrightarrow>
          (\<exists>q. closes cd q p \<and> cd ! q = opn \<and> q \<notin> open_positions ty st
               \<and> m ! p = int q \<and> m ! q = int p))"

definition stack_inv :: "string \<Rightarrow> nat \<Rightarrow> MapStackEntry list \<Rightarrow> bool" where
  "stack_inv cd i st \<longleftrightarrow>
     (\<forall>e \<in> set st. position e < i \<and> cd ! position e = opener e)
     \<and> distinct (map position st)"

text \<open>
  The stack of the scan against the code read so far: the code after the nearest
  unclosed opener is well nested by itself, and so is the code between each unclosed
  opener and the next, and the code before the first.
\<close>

fun stack_segs :: "string \<Rightarrow> nat \<Rightarrow> MapStackEntry list \<Rightarrow> bool" where
  "stack_segs cd i [] = well_nested [] (take i cd)"
| "stack_segs cd i (e # rest) =
     (position e < i \<and> well_nested [] (between cd (position e) i)
      \<and> stack_segs cd (position e) rest)"

text \<open>1025 opening brackets and their 1025 closing brackets.\<close>

definition deep_program :: string where
  "deep_program = replicate 1025 CHR ''['' @ replicate 1025 CHR '']''"

text \<open>
  The relation between the interpreter at the moment a scope is opened and a later one
  inside that scope: the log has only gained entries of deeper levels, and undoing
  these on the present tape gives the tape of that moment, grown by zero cells.
\<close>

definition rollback_rel :: "Interpreter \<Rightarrow> Interpreter \<Rightarrow> bool" where
  "rollback_rel i0 i \<longleftrightarrow>
     zero_offset (tape i) = zero_offset (tape i0)
     \<and> (\<exists>ext z. undo_log i = undo_log i0 @ ext
           \<and> (\<forall>e \<in> set ext. stack_level e > pointer_stack_top i0)
           \<and> unwind (zero_offset (tape i)) (rev ext) (cells (tape i))
               = cells (tape i0) @ replicate z 0)"

text \<open>
  The command at \<open>ip\<close> is a mutation whose undo entry cannot be recorded: the scope is
  not the root, the cell has no entry at this level yet, and the log is full and cannot
  grow.
\<close>

definition append_fails_now :: "Env \<Rightarrow> Config \<Rightarrow> bool" where
  "append_fails_now env c \<longleftrightarrow>
     code (interp c) ! ip c \<in> {CHR ''+'', CHR ''-'', CHR '',''}
     \<and> pointer_stack_top (interp c) \<noteq> 0
     \<and> \<not> logged (undo_log (interp c)) (pointer_stack (interp c) ! current_ptr c)
           (pointer_stack_top (interp c))
     \<and> append_fails (heap env) (interp c)"

text \<open>
  \<open>within_scope env L n c c'\<close>: the loop takes \<open>n\<close> turns from \<open>c\<close> to \<open>c'\<close>, and
  after each of them at least \<open>L\<close> scopes besides the root are open.
  \<open>no_append_failure env n c\<close>: in none of these turns the recorder fails to append.
\<close>

fun within_scope :: "Env \<Rightarrow> nat \<Rightarrow> nat \<Rightarrow> Config \<Rightarrow> Config \<Rightarrow> bool" where
  "within_scope env L 0 c c' \<longleftrightarrow> c' = c"
| "within_scope env L (Suc n) c c' \<longleftrightarrow>
     running c \<and>
     (case run_step env c of
        Inl e \<Rightarrow> False
      | Inr c1 \<Rightarrow> pointer_stack_top (interp c1) \<ge> L \<and> within_scope env L n c1 c')"

fun no_append_failure :: "Env \<Rightarrow> nat \<Rightarrow> Config \<Rightarrow> bool" where
  "no_append_failure env 0 c \<longleftrightarrow> True"
| "no_append_failure env (Suc n) c \<longleftrightarrow>
     \<not> append_fails_now env c \<and>
     (case run_step env c of
        Inl e \<Rightarrow> True
      | Inr c1 \<Rightarrow> no_append_failure env n c1)"

text \<open>
  The interpreter created for the program \<open>+{+>{+<+}+}\<close>, which mutates cell 0 in the
  root scope, in a first scope and in a second one nested in it, and its state after
  \<open>k\<close> turns of the loop.
\<close>

definition nested_demo :: Interpreter where
  "nested_demo = fresh ''+{+>{+<+}+}'' [- 1, - 1, - 1, - 1, - 1, - 1, - 1, - 1, - 1, - 1, - 1]
     [- 1, 10, - 1, - 1, 8, - 1, - 1, - 1, 4, - 1, 1] []"

definition demo_cfg :: "byte list \<Rightarrow> cint list \<Rightarrow> nat \<Rightarrow> UndoEntry list \<Rightarrow> nat \<Rightarrow> Config" where
  "demo_cfg cs ps lvl lg k =
     \<lparr>interp = nested_demo
        \<lparr>tape := \<lparr>cells = cs, size' = 30000, zero_offset = 15000\<rparr>,
         pointer_stack := ps, pointer_stack_top := lvl, undo_log := lg\<rparr>,
      ip = k, current_ptr = lvl, instruction_count = k\<rparr>"

definition demo_states :: "Config list" where
  "demo_states =
     [demo_cfg ((replicate 30000 0))
        ((replicate 256 0)[0 := 0]) 0
        [] 0,
      demo_cfg ((replicate 30000 0)[15000 := 1])
        ((replicate 256 0)[0 := 0]) 0
        [] 1,
      demo_cfg ((replicate 30000 0)[15000 := 1])
        ((replicate 256 0)[0 := 0, 1 := 0]) 1
        [] 2,
      demo_cfg ((replicate 30000 0)[15000 := 2])
        ((replicate 256 0)[0 := 0, 1 := 0]) 1
        [\<lparr>logical_index = 0, original_value = 1, stack_level = 1\<rparr>] 3,
      demo_cfg ((replicate 30000 0)[15000 := 2])
        ((replicate 256 0)[0 := 0, 1 := 1]) 1
        [\<lparr>logical_index = 0, original_value = 1, stack_level = 1\<rparr>] 4,
      demo_cfg ((replicate 30000 0)[15000 := 2])
        ((replicate 256 0)[0 := 0, 1 := 1, Suc (Suc 0) := 1]) (Suc (Suc 0))
        [\<lparr>logical_index = 0, original_value = 1, stack_level = 1\<rparr>] 5,
      demo_cfg ((replicate 30000 0)[15000 := 2, 15001 := 1])
        ((replicate 256 0)[0 := 0, 1 := 1, Suc (Suc 0) := 1]) (Suc (Suc 0))
        [\<lparr>logical_index = 0, original_value = 1, stack_level = 1\<rparr>,
         \<lparr>logical_index = 1, original_value = 0, stack_level = 2\<rparr>] 6,
      demo_cfg ((replicate 30000 0)[15000 := 2, 15001 := 1])
        ((replicate 256 0)[0 := 0, 1 := 1, Suc (Suc 0) := 0]) (Suc (Suc 0))
        [\<lparr>logical_index = 0, original_value = 1, stack_level = 1\<rparr>,
         \<lparr>logical_index = 1, original_value = 0, stack_level = 2\<rparr>] 7,
      demo_cfg ((replicate 30000 0)[15000 := 2, 15001 := 1, 15000 := 3])
        ((replicate 256 0)[0 := 0, 1 := 1, Suc (Suc 0) := 0]) (Suc (Suc 0))
        [\<lparr>logical_index = 0, original_value = 1, stack_level = 1\<rparr>,
         \<lparr>logical_index = 1, original_value = 0, stack_level = 2\<rparr>,
         \<lparr>logical_index = 0, original_value = 2, stack_level = 2\<rparr>] 8,
      demo_cfg ((replicate 30000 0)[15000 := 2, 15001 := 1, 15000 := 2, 15001 := 0])
        ((replicate 256 0)[0 := 0, 1 := 1, Suc (Suc 0) := 0]) 1
        [\<lparr>logical_index = 0, original_value = 1, stack_level = 1\<rparr>] 9,
      demo_cfg ((replicate 30000 0)[15000 := 2, 15001 := 1, 15000 := 2, 15001 := 1])
        ((replicate 256 0)[0 := 0, 1 := 1, Suc (Suc 0) := 0]) 1
        [\<lparr>logical_index = 0, original_value = 1, stack_level = 1\<rparr>,
         \<lparr>logical_index = 1, original_value = 0, stack_level = 1\<rparr>] 10,
      demo_cfg ((replicate 30000 0)[15000 := 2, 15001 := 1, 15000 := 2, 15001 := 0, 15000 := 1])
        ((replicate 256 0)[0 := 0, 1 := 1, Suc (Suc 0) := 0]) 0
        [] 11]"

definition demo_state :: "nat \<Rightarrow> Config" where
  "demo_state k = demo_states ! k"

text \<open>
  An environment that refuses exactly the allocation of 512 bytes, the size of the undo
  log grown from 16 to 32 entries; and the interpreter created in it for a program
  that, in one scope, increments 17 neighbouring cells.
\<close>

definition tight_heap :: Env where
  "tight_heap = \<lparr>heap = (\<lambda>n. n \<noteq> 512), fputc_ok = (\<lambda>n. True)\<rparr>"

definition seventeen_cells :: string where
  "seventeen_cells = ''{+>+>+>+>+>+>+>+>+>+>+>+>+>+>+>+>+}''"

definition seventeen_demo :: Interpreter where
  "seventeen_demo = fresh seventeen_cells
     [- 1, - 1, - 1, - 1, - 1, - 1, - 1, - 1, - 1, - 1, - 1, - 1, - 1, - 1, - 1, - 1, - 1, - 1, - 1, - 1, - 1, - 1, - 1, - 1, - 1, - 1, - 1, - 1, - 1, - 1, - 1, - 1, - 1, - 1, - 1]
     [34, - 1, - 1, - 1, - 1, - 1, - 1, - 1, - 1, - 1, - 1, - 1, - 1, - 1, - 1, - 1, - 1, - 1, - 1, - 1, - 1, - 1, - 1, - 1, - 1, - 1, - 1, - 1, - 1, - 1, - 1, - 1, - 1, - 1, 0] []"

text \<open>The interpreter created for the program \<open>+\<close>.\<close>

definition root_demo :: Interpreter where
  "root_demo = fresh ''+'' [- 1] [- 1] []"

text \<open>
  The state of that run after 33 turns of the loop: sixteen cells incremented and
  logged, the pointer on cell 16, the log full.
\<close>

definition seventeen_full :: Config where
  "seventeen_full =
     \<lparr>interp = seventeen_demo
        \<lparr>tape := \<lparr>cells = (replicate 30000 0)[15000 := 1, 15001 := 1, 15002 := 1, 15003 := 1, 15004 := 1, 15005 := 1, 15006 := 1, 15007 := 1, 15008 := 1, 15009 := 1, 15010 := 1, 15011 := 1, 15012 := 1, 15013 := 1, 15014 := 1, 15015 := 1],
                  size' = 30000, zero_offset = 15000\<rparr>,
         pointer_stack := (replicate 256 0)[0 := 0, 1 := 16],
         pointer_stack_top := 1,
         undo_log :=
        [\<lparr>logical_index = 0, original_value = 0, stack_level = 1\<rparr>,
         \<lparr>logical_index = 1, original_value = 0, stack_level = 1\<rparr>,
         \<lparr>logical_index = 2, original_value = 0, stack_level = 1\<rparr>,
         \<lparr>logical_index = 3, original_value = 0, stack_level = 1\<rparr>,
         \<lparr>logical_index = 4, original_value = 0, stack_level = 1\<rparr>,
         \<lparr>logical_index = 5, original_value = 0, stack_level = 1\<rparr>,
         \<lparr>logical_index = 6, original_value = 0, stack_level = 1\<rparr>,
         \<lparr>logical_index = 7, original_value = 0, stack_level = 1\<rparr>,
         \<lparr>logical_index = 8, original_value = 0, stack_level = 1\<rparr>,
         \<lparr>logical_index = 9, original_value = 0, stack_level = 1\<rparr>,
         \<lparr>logical_index = 10, original_value = 0, stack_level = 1\<rparr>,
         \<lparr>logical_index = 11, original_value = 0, stack_level = 1\<rparr>,
         \<lparr>logical_index = 12, original_value = 0, stack_level = 1\<rparr>,
         \<lparr>logical_index = 13, original_value = 0, stack_level = 1\<rparr>,
         \<lparr>logical_index = 14, original_value = 0, stack_level = 1\<rparr>,
         \<lparr>logical_index = 15, original_value = 0, stack_level = 1\<rparr>]\<rparr>,
      ip = 33, current_ptr = 1, instruction_count = 33\<rparr>"

section \<open>Properties of the tape\<close>

lemma ensure_left_no_growth:
  assumes "index <s 0" and "zero_offset t < scast (- index)" and "size' t \<noteq> 0"
  shows "ensure_tape_capacity hp t index = (0, t)"
proof -
  have "\<not> 0 \<le>s index"
    using assms(1) by (simp add: word_sless_alt word_sle_eq)
  moreover have "\<not> size' t \<le> 0"
    using assms(3) by (simp add: word_le_nat_alt unat_eq_0)
  ultimately show ?thesis
    using assms(2) by (simp add: ensure_tape_capacity_def)
qed

lemma not_sle_iff: "(\<not> 0 \<le>s (i::cint)) = (i <s 0)"
  by (simp add: word_sless_alt word_sle_eq not_le)

lemma grow_loop_right:
  assumes "\<not> index <s 0" "n \<noteq> 0" "old \<le> n"
  shows "(case grow_loop req old index zo n 0 of
            Grown n' s' \<Rightarrow> s' = 0 \<and> req < n' \<and> n \<le> n' \<and> n' \<noteq> 0
          | MaxSize \<Rightarrow> True | Stuck \<Rightarrow> False)"
  using assms
proof (induction req old index zo n "0::size_t" rule: grow_loop.induct)
  case (1 required old_size index zo new_size)
  show ?case
  proof (cases "required \<ge> new_size \<or> new_size < old_size")
    case False
    then show ?thesis using 1(2-) by (subst grow_loop.simps) (auto simp: not_le)
  next
    case c: True
    show ?thesis
    proof (cases "new_size > SIZE_MAX div 2")
      case True
      then show ?thesis using c by (subst grow_loop.simps) simp
    next
      case False
      have h: "unat new_size \<le> 9223372036854775807"
        using False by (simp add: SIZE_MAX_def word_less_nat_alt unat_div not_less)
      have pos: "0 < unat new_size"
        using 1(3) by (simp add: unat_gt_0)
      have u: "unat (new_size * 2) = unat new_size * 2"
        using h by (simp add: unat_word_ariths)
      have nz2: "new_size * 2 \<noteq> 0" using u pos by (metis mult_is_0 unat_eq_0 zero_neq_numeral less_numeral_extra(3))
      have le2: "new_size \<le> new_size * 2" using u by (simp add: word_le_nat_alt)
      have old2: "old_size \<le> new_size * 2" using le2 1(4) by simp
      have IH: "(case grow_loop required old_size index zo (new_size * 2) 0 of
            Grown n' s' \<Rightarrow> s' = 0 \<and> required < n' \<and> new_size * 2 \<le> n' \<and> n' \<noteq> 0
          | MaxSize \<Rightarrow> True | Stuck \<Rightarrow> False)"
        using 1(1)[OF _ False 1(3) _ 1(2) nz2 old2] c 1(2) by simp
      show ?thesis
        using IH c False 1(2,3) le2
        by (subst grow_loop.simps) (auto split: grow.splits)
    qed
  qed
qed


lemma expand_right:
  assumes ok: "tape_ok t" and pos: "0 \<le>s index"
    and req: "required = zero_offset t + scast index" and big: "size' t \<le> required"
    and res: "expand_tape hp t index required = (rc, t')"
  shows "(rc \<noteq> 0 \<and> t' = t) \<or>
         (rc = 0 \<and> zero_offset t' = zero_offset t \<and> size' t \<le> size' t' \<and> required < size' t'
          \<and> cells t' = cells t @ replicate (unat (size' t') - unat (size' t)) 0)"
proof -
  have nneg: "\<not> index <s 0" using pos by (simp add: word_sless_alt word_sle_eq)
  have nz: "size' t \<noteq> 0" using ok by (auto simp: tape_ok_def)
  have len: "length (cells t) = unat (size' t)" using ok by (simp add: tape_ok_def)
  note gl = grow_loop_right [OF nneg nz order_refl, of required "zero_offset t"]
  show ?thesis
  proof (cases "grow_loop required (size' t) index (zero_offset t) (size' t) 0")
    case MaxSize
    then show ?thesis using res nneg nz by (simp add: expand_tape_def)
  next
    case Stuck
    then show ?thesis using gl by simp
  next
    case (Grown n s)
    then have s0: "s = 0" and rn: "required < n" and sn: "size' t \<le> n"
      using gl by simp_all
    have lt: "size' t < n" using big rn by simp
    have un: "unat (n - size' t) = unat n - unat (size' t)"
      using sn by (simp add: unat_sub)
    have le: "unat (size' t) \<le> unat n" using sn by (simp add: word_le_nat_alt)
    show ?thesis
    proof (cases "hp (unat n)")
      case False
      then show ?thesis using res nneg nz Grown by (simp add: expand_tape_def)
    next
      case True
      have cs: "memset (realloc_cells (cells t) (unat n)) (unat (size' t)) 0 (unat n - unat (size' t))
                = cells t @ replicate (unat n - unat (size' t)) 0"
        using le len by (simp add: memset_def realloc_cells_def)
      have "expand_tape hp t index required =
              finish_expand (t\<lparr>cells := cells t @ replicate (unat n - unat (size' t)) 0\<rparr>) n index"
        using True nneg nz Grown s0 lt un cs by (simp add: expand_tape_def)
      also have "\<dots> = (0, t\<lparr>cells := cells t @ replicate (unat n - unat (size' t)) 0, size' := n\<rparr>)"
        using pos rn req by (simp add: finish_expand_def Let_def not_le)
      finally show ?thesis using res sn rn by auto
    qed
  qed
qed

lemma ensure_negative:
  assumes ok: "tape_ok t" and neg: "\<not> 0 \<le>s index"
  shows "ensure_tape_capacity hp t index = (0, t)"
proof (cases "zero_offset t < scast (- index)")
  case True
  then show ?thesis using ok neg by (auto simp: ensure_tape_capacity_def tape_ok_def)
next
  case False
  then have "zero_offset t - scast (- index) \<le> zero_offset t"
    by (simp add: word_sub_le not_less)
  then have "zero_offset t - scast (- index) < size' t"
    using ok by (auto simp: tape_ok_def)
  then show ?thesis using False neg by (auto simp: ensure_tape_capacity_def Let_def)
qed

lemma ensure_tape_ok:
  assumes ok: "tape_ok t" and res: "ensure_tape_capacity hp t index = (rc, t')"
  shows "tape_ok t' \<and> zero_offset t' = zero_offset t
         \<and> (\<exists>k. cells t' = cells t @ replicate k 0)
         \<and> (rc \<noteq> 0 \<longrightarrow> t' = t)
         \<and> (rc = 0 \<longrightarrow> covered t' index)"
proof (cases "0 \<le>s index")
  case False
  then have "t' = t" "rc = 0"
    using res ensure_negative [OF ok False, of hp] by simp_all
  then show ?thesis using ok False by (auto simp: covered_def)
next
  case pos: True
  show ?thesis
  proof (cases "zero_offset t > SIZE_MAX - scast index")
    case True
    then show ?thesis using res ok pos by (auto simp: ensure_tape_capacity_def)
  next
    case nov: False
    show ?thesis
    proof (cases "size' t \<le> zero_offset t + scast index")
      case False
      then have "t' = t" "rc = 0" using res pos nov by (auto simp: ensure_tape_capacity_def)
      then show ?thesis using ok False nov by (auto simp: covered_def not_le)
    next
      case True
      then have e: "expand_tape hp t index (zero_offset t + scast index) = (rc, t')"
        using res pos nov by (simp add: ensure_tape_capacity_def)
      from expand_right [OF ok pos refl True e]
      show ?thesis
      proof
        assume "rc \<noteq> 0 \<and> t' = t"
        then show ?thesis using ok by simp
      next
        assume a: "rc = 0 \<and> zero_offset t' = zero_offset t \<and> size' t \<le> size' t'
          \<and> zero_offset t + scast index < size' t'
          \<and> cells t' = cells t @ replicate (unat (size' t') - unat (size' t)) 0"
        have "unat (size' t) \<le> unat (size' t')" using a by (simp add: word_le_nat_alt)
        then have "tape_ok t'" using ok a by (auto simp: tape_ok_def)
        then show ?thesis using a nov by (auto simp: covered_def)
      qed
    qed
  qed
qed

lemma ensure_covered:
  assumes "tape_ok t" "covered t index"
  shows "ensure_tape_capacity hp t index = (0, t)"
proof (cases "0 \<le>s index")
  case False
  then show ?thesis using assms by (simp add: ensure_negative)
next
  case True
  then show ?thesis using assms by (auto simp: ensure_tape_capacity_def Let_def covered_def)
qed


lemma grows_refl: "tape_ok t \<Longrightarrow> grows t t"
  by (auto simp: grows_def intro: exI [of _ 0])

lemma grows_trans: "grows t t' \<Longrightarrow> grows t' t'' \<Longrightarrow> grows t t''"
  by (auto simp: grows_def replicate_add [symmetric])

lemma ensure_grows: "tape_ok t \<Longrightarrow> ensure_tape_capacity hp t index = (rc, t') \<Longrightarrow> grows t t'"
  using ensure_tape_ok [of t hp index rc t'] by (simp add: grows_def)

lemma grows_size: "tape_ok t \<Longrightarrow> grows t t' \<Longrightarrow> size' t \<le> size' t'"
  by (auto simp: grows_def tape_ok_def word_le_nat_alt)

lemma grows_reachable:
  assumes "tape_ok t" "grows t t'" "reachable_cell t index"
  shows "reachable_cell t' index"
proof -
  have "size' t \<le> size' t'" using assms by (simp add: grows_size)
  moreover have "length (cells t) \<le> length (cells t')" using assms by (auto simp: grows_def)
  ultimately show ?thesis using assms(2,3)
    by (auto simp: reachable_cell_def covered_def in_block_def physical_index_def grows_def)
qed

lemma log_undo_entry_result:
  assumes ok: "tape_ok (tape i)" and cov: "covered (tape i) idx"
    and blk: "in_block (tape i) (physical_index (tape i) idx)"
  shows "log_undo_entry hp i idx =
     Inr (if pointer_stack_top i = 0 \<or> logged (undo_log i) idx (pointer_stack_top i)
             \<or> append_fails hp i
          then i
          else i\<lparr>undo_log_capacity := grown_capacity i,
                 undo_log := undo_log i @
                   [\<lparr>logical_index = idx,
                     original_value = cell_at (tape i) (physical_index (tape i) idx),
                     stack_level = pointer_stack_top i\<rparr>]\<rparr>)"
proof -
  have e: "ensure_tape_capacity hp (tape i) idx = (0, tape i)"
    using ok cov by (rule ensure_covered)
  show ?thesis
    using e blk
    by (auto simp: log_undo_entry_def append_fails_def grown_capacity_def Let_def)
qed

lemma unwind_length [simp]: "length (unwind zo es cs) = length cs"
  unfolding unwind_def by (induction es arbitrary: cs) auto

lemma store_ok: "tape_ok t \<Longrightarrow> tape_ok (store t p v)"
  by (simp add: tape_ok_def store_def)

lemma store_reachable: "reachable_cell (store t p v) index = reachable_cell t index"
  by (simp add: reachable_cell_def covered_def in_block_def physical_index_def store_def)

lemma restore_loop_result:
  assumes "tape_ok t" "\<forall>e \<in> set es. reachable_cell t (logical_index e)"
  shows "restore_loop hp L es t =
           Inr (dropWhile (\<lambda>e. stack_level e = L) es,
                t\<lparr>cells := unwind (zero_offset t) (takeWhile (\<lambda>e. stack_level e = L) es) (cells t)\<rparr>)"
  using assms
proof (induction es arbitrary: t)
  case Nil
  then show ?case by (simp add: unwind_def)
next
  case (Cons e es)
  show ?case
  proof (cases "stack_level e = L")
    case False
    then show ?thesis by (simp add: unwind_def)
  next
    case True
    have r: "reachable_cell t (logical_index e)" using Cons.prems by simp
    then have en: "ensure_tape_capacity hp t (logical_index e) = (0, t)"
      using Cons.prems(1) by (simp add: ensure_covered reachable_cell_def)
    let ?t1 = "store t (physical_index t (logical_index e)) (original_value e)"
    have ok1: "tape_ok ?t1" using Cons.prems(1) by (rule store_ok)
    have r1: "\<forall>x \<in> set es. reachable_cell ?t1 (logical_index x)"
      using Cons.prems(2) by (simp add: store_reachable)
    have zo: "zero_offset ?t1 = zero_offset t" by (simp add: store_def)
    show ?thesis
      using True en r Cons.IH [OF ok1 r1]
      by (simp add: reachable_cell_def zo) (simp add: unwind_def store_def physical_index_def)
  qed
qed

lemma logged_iff:
  "logged log idx level \<longleftrightarrow> (\<exists>e \<in> set log. logical_index e = idx \<and> level \<le> stack_level e)"
  by (auto simp: logged_def list_ex_iff)

lemma interp_ok_grow:
  assumes "interp_ok i" "grows (tape i) t1"
  shows "interp_ok (i\<lparr>tape := t1\<rparr>)"
  using assms grows_reachable [of "tape i" t1]
  by (auto simp: interp_ok_def log_ok_def grows_def)

lemma interp_ok_store:
  assumes "interp_ok i"
  shows "interp_ok (i\<lparr>tape := store (tape i) p v\<rparr>)"
  using assms by (auto simp: interp_ok_def log_ok_def store_ok store_reachable)

lemma interp_ok_stack:
  assumes "interp_ok i"
  shows "interp_ok (i\<lparr>pointer_stack := (pointer_stack i)[k := v]\<rparr>)"
  using assms by (auto simp: interp_ok_def log_ok_def)

lemma interp_ok_output:
  assumes "interp_ok i"
  shows "interp_ok (i\<lparr>output' := out\<rparr>)" and "interp_ok (i\<lparr>input' := inp\<rparr>)"
  using assms by (auto simp: interp_ok_def log_ok_def)

lemma interp_ok_append:
  assumes ok: "interp_ok i" and top: "pointer_stack_top i \<noteq> 0"
    and new: "\<not> logged (undo_log i) idx (pointer_stack_top i)"
    and r: "reachable_cell (tape i) idx"
  shows "interp_ok (i\<lparr>undo_log_capacity := cap,
                      undo_log := undo_log i @
                        [\<lparr>logical_index = idx, original_value = v,
                          stack_level = pointer_stack_top i\<rparr>]\<rparr>)"
proof -
  have "\<forall>e \<in> set (undo_log i). (logical_index e, stack_level e) \<noteq> (idx, pointer_stack_top i)"
    using new by (auto simp: logged_iff)
  then show ?thesis
    using ok top r by (auto simp: interp_ok_def log_ok_def sorted_append)
qed

lemma interp_ok_push:
  assumes "interp_ok i" "pointer_stack_top i + 1 < MAX_TEMP_DEPTH"
  shows "interp_ok (i\<lparr>pointer_stack_top := pointer_stack_top i + 1,
                      pointer_stack := (pointer_stack i)[pointer_stack_top i + 1 := v]\<rparr>)"
  using assms by (auto simp: interp_ok_def log_ok_def)

lemma dropWhile_below:
  assumes "sorted (rev (map stack_level es))" "\<forall>e \<in> set es. stack_level e \<le> L"
  shows "\<forall>e \<in> set (dropWhile (\<lambda>e. stack_level e = L) es). stack_level e < L"
  using assms
proof (induction es)
  case Nil
  then show ?case by simp
next
  case (Cons x xs)
  show ?case
  proof (cases "stack_level x = L")
    case True
    then show ?thesis using Cons by (simp add: sorted_append)
  next
    case False
    then have "stack_level x < L" using Cons.prems(2) by (simp add: le_neq_implies_less)
    moreover have "\<forall>e \<in> set xs. stack_level e \<le> stack_level x"
      using Cons.prems(1) by (simp add: sorted_append)
    ultimately show ?thesis using False by auto
  qed
qed

lemma restore_undo_entries_result:
  assumes "interp_ok i"
  shows "restore_undo_entries hp i =
           Inr (i\<lparr>undo_log := rev (dropWhile (\<lambda>e. stack_level e = pointer_stack_top i)
                                      (rev (undo_log i))),
                  tape := (tape i)\<lparr>cells := unwind (zero_offset (tape i))
                             (takeWhile (\<lambda>e. stack_level e = pointer_stack_top i)
                                (rev (undo_log i)))
                             (cells (tape i))\<rparr>\<rparr>)"
proof -
  have "\<forall>e \<in> set (rev (undo_log i)). reachable_cell (tape i) (logical_index e)"
    using assms by (simp add: interp_ok_def log_ok_def)
  moreover have "tape_ok (tape i)" using assms by (simp add: interp_ok_def)
  ultimately show ?thesis
    by (simp add: restore_undo_entries_def restore_loop_result)
qed

lemma unwind_tape_ok: "tape_ok t \<Longrightarrow> tape_ok (t\<lparr>cells := unwind zo es (cells t)\<rparr>)"
  by (simp add: tape_ok_def)

lemma unwind_reachable:
  "reachable_cell (t\<lparr>cells := unwind zo es (cells t)\<rparr>) index = reachable_cell t index"
  by (simp add: reachable_cell_def covered_def in_block_def physical_index_def)

lemma interp_ok_pop:
  assumes ok: "interp_ok i" and top: "pointer_stack_top i \<noteq> 0"
    and res: "restore_undo_entries hp i = Inr i1"
  shows "interp_ok (i1\<lparr>pointer_stack_top := pointer_stack_top i1 - 1\<rparr>)"
proof -
  let ?P = "\<lambda>e. stack_level e = pointer_stack_top i"
  let ?kept = "dropWhile ?P (rev (undo_log i))"
  have i1: "i1 = i\<lparr>undo_log := rev ?kept,
                  tape := (tape i)\<lparr>cells := unwind (zero_offset (tape i))
                             (takeWhile ?P (rev (undo_log i))) (cells (tape i))\<rparr>\<rparr>"
    using res restore_undo_entries_result [OF ok, of hp] by simp
  have srt: "sorted (rev (map stack_level (rev (undo_log i))))"
    using ok by (simp add: interp_ok_def log_ok_def rev_map)
  have le: "\<forall>e \<in> set (rev (undo_log i)). stack_level e \<le> pointer_stack_top i"
    using ok by (simp add: interp_ok_def log_ok_def)
  have below: "\<forall>e \<in> set ?kept. stack_level e < pointer_stack_top i"
    using dropWhile_below [OF srt le] .
  have sub: "set ?kept \<subseteq> set (undo_log i)"
    using set_dropWhileD by fastforce
  have split: "undo_log i = rev ?kept @ rev (takeWhile ?P (rev (undo_log i)))"
    by (metis rev_append rev_rev_ident takeWhile_dropWhile_id)
  have s1: "sorted (map stack_level (rev ?kept))"
    using ok by (subst (asm) interp_ok_def, subst (asm) log_ok_def, subst (asm) split)
      (simp add: sorted_append del: rev_rev_ident)
  have d1: "distinct (map (\<lambda>e. (logical_index e, stack_level e)) (rev ?kept))"
    using ok by (subst (asm) interp_ok_def, subst (asm) log_ok_def, subst (asm) (3) split)
      (simp del: rev_rev_ident)
  have all: "\<forall>e \<in> set ?kept. 1 \<le> stack_level e \<and> reachable_cell (tape i) (logical_index e)"
    using sub ok by (auto simp: interp_ok_def log_ok_def)
  show ?thesis
    using ok top below s1 d1 all
    by (auto simp: i1 interp_ok_def log_ok_def unwind_tape_ok unwind_reachable)
qed

lemma record_entry_tape [simp]: "tape (record_entry hp i idx) = tape i"
  by (simp add: record_entry_def)

lemma record_entry_ok:
  assumes "interp_ok i" "reachable_cell (tape i) idx"
  shows "interp_ok (record_entry hp i idx)"
  using assms by (simp add: record_entry_def interp_ok_append)

lemma locate_Inr:
  assumes ok: "interp_ok (interp c)" and res: "locate env c = Inr (i1, idx, phys)"
  shows "i1 = (interp c)\<lparr>tape := tape i1\<rparr>" and "grows (tape (interp c)) (tape i1)"
    and "covered (tape i1) idx" and "idx = pointer_stack (interp c) ! current_ptr c"
    and "phys = physical_index (tape i1) idx" and "interp_ok i1"
proof -
  let ?idx = "pointer_stack (interp c) ! current_ptr c"
  obtain rc t1 where e: "ensure_tape_capacity (heap env) (tape (interp c)) ?idx = (rc, t1)"
    by (cases "ensure_tape_capacity (heap env) (tape (interp c)) ?idx") auto
  have tok: "tape_ok (tape (interp c))" using ok by (simp add: interp_ok_def)
  have rc: "rc = 0" and i1: "i1 = (interp c)\<lparr>tape := t1\<rparr>" and idx: "idx = ?idx"
    and phys: "phys = physical_index t1 ?idx"
    using res e by (auto simp: locate_def Let_def split: if_splits)
  have g: "grows (tape (interp c)) t1" using tok e by (rule ensure_grows)
  have cov: "covered t1 ?idx" using ensure_tape_ok [OF tok e] rc by simp
  show "i1 = (interp c)\<lparr>tape := tape i1\<rparr>" by (simp add: i1)
  show "grows (tape (interp c)) (tape i1)" using g by (simp add: i1)
  show "covered (tape i1) idx" using cov by (simp add: i1 idx)
  show "idx = pointer_stack (interp c) ! current_ptr c" by (rule idx)
  show "phys = physical_index (tape i1) idx" by (simp add: phys i1 idx)
  show "interp_ok i1" using interp_ok_grow [OF ok g] by (simp add: i1)
qed

lemma mutate_Inr:
  assumes ok: "interp_ok i1" and cov: "covered (tape i1) idx"
    and res: "mutate env c i1 idx (physical_index (tape i1) idx) f = Inr c'"
  shows "in_block (tape i1) (physical_index (tape i1) idx)
         \<and> c' = c\<lparr>interp := (record_entry (heap env) i1 idx)
                     \<lparr>tape := store (tape i1) (physical_index (tape i1) idx)
                                (f (cell_at (tape i1) (physical_index (tape i1) idx)))\<rparr>\<rparr>"
proof -
  have blk: "in_block (tape i1) (physical_index (tape i1) idx)"
    using res by (auto simp: mutate_def split: if_splits)
  have tok: "tape_ok (tape i1)" using ok by (simp add: interp_ok_def)
  have l: "log_undo_entry (heap env) i1 idx = Inr (record_entry (heap env) i1 idx)"
    using log_undo_entry_result [OF tok cov blk] by (simp add: record_entry_def)
  show ?thesis using res blk l by (auto simp: mutate_def split: if_splits)
qed

lemma move_pointer_ok:
  assumes "config_ok c" "move_pointer env c d = Inr c'"
  shows "config_ok c'"
proof -
  let ?n = "pointer_stack (interp c) ! current_ptr c + d"
  obtain rc t1 where e: "ensure_tape_capacity (heap env) (tape (interp c)) ?n = (rc, t1)"
    by (cases "ensure_tape_capacity (heap env) (tape (interp c)) ?n") auto
  have ok: "interp_ok (interp c)" using assms(1) by (simp add: config_ok_def)
  then have g: "grows (tape (interp c)) t1" using e by (simp add: ensure_grows interp_ok_def)
  have c': "c' = c\<lparr>interp := (interp c)\<lparr>tape := t1,
                 pointer_stack := (pointer_stack (interp c))[current_ptr c := ?n]\<rparr>\<rparr>"
    using assms(2) e by (auto simp: move_pointer_def Let_def split: if_splits)
  have "interp_ok ((interp c)\<lparr>tape := t1\<rparr>\<lparr>pointer_stack :=
           (pointer_stack ((interp c)\<lparr>tape := t1\<rparr>))[current_ptr c := ?n]\<rparr>)"
    by (rule interp_ok_stack) (rule interp_ok_grow [OF ok g])
  then show ?thesis using assms(1) by (simp add: c' config_ok_def)
qed

lemma mutate_ok:
  assumes cok: "config_ok c" and ok: "interp_ok i1" and cov: "covered (tape i1) idx"
    and same: "pointer_stack_top i1 = pointer_stack_top (interp c)"
    and res: "mutate env c i1 idx (physical_index (tape i1) idx) f = Inr c'"
  shows "config_ok c'"
proof -
  note m = mutate_Inr [OF ok cov res]
  have r: "reachable_cell (tape i1) idx" using m cov by (simp add: reachable_cell_def)
  have "interp_ok (record_entry (heap env) i1 idx)" using ok r by (rule record_entry_ok)
  then have "interp_ok ((record_entry (heap env) i1 idx)
      \<lparr>tape := store (tape (record_entry (heap env) i1 idx)) (physical_index (tape i1) idx)
                (f (cell_at (tape i1) (physical_index (tape i1) idx)))\<rparr>)"
    by (rule interp_ok_store)
  moreover have "pointer_stack_top (record_entry (heap env) i1 idx) = pointer_stack_top i1"
    by (simp add: record_entry_def)
  ultimately show ?thesis using m cok same by (simp add: config_ok_def)
qed

lemma jump_ok:
  assumes "config_ok c" "interp_ok i1" "pointer_stack_top i1 = pointer_stack_top (interp c)"
    and "jump c i1 = Inr c'"
  shows "config_ok c'"
  using assms by (auto simp: jump_def Let_def config_ok_def split: if_splits)

lemma exec_ok:
  assumes cok: "config_ok c" and res: "exec env command c = Inr c'"
  shows "config_ok c'"
proof -
  have ok: "interp_ok (interp c)" using cok by (simp add: config_ok_def)
  have top_eq: "\<And>i1 idx phys. locate env c = Inr (i1, idx, phys) \<Longrightarrow>
      pointer_stack_top i1 = pointer_stack_top (interp c)"
    by (auto simp: locate_def Let_def split: prod.splits if_splits)
  consider (mv) "command = CHR ''>'' \<or> command = CHR ''<''"
    | (mut) "command = CHR ''+'' \<or> command = CHR ''-'' \<or> command = CHR '',''"
    | (out) "command = CHR ''.''"
    | (br) "command = CHR ''['' \<or> command = CHR '']''"
    | (push) "command = CHR ''{''"
    | (pop) "command = CHR ''}''"
    | (other) "command \<notin> set ''><+-.,[]{}''"
    by auto
  then show ?thesis
  proof cases
    case mv
    then show ?thesis using res cok by (auto simp: exec_def dest: move_pointer_ok)
  next
    case mut
    then obtain i1 idx phys f i1' where l: "locate env c = Inr (i1, idx, phys)"
      and m: "mutate env c i1' idx phys f = Inr c'"
      and i1': "i1' = i1 \<or> i1' = i1\<lparr>input' := tl (input' i1)\<rparr>"
      using res by (auto simp: exec_def Let_def split: sum.splits)
    note L = locate_Inr [OF ok l]
    have ok': "interp_ok i1'" using i1' L(6) interp_ok_output(2) by auto
    have t: "tape i1' = tape i1" "pointer_stack_top i1' = pointer_stack_top i1"
      using i1' by auto
    have cov': "covered (tape i1') idx" using L(3) t by simp
    have same': "pointer_stack_top i1' = pointer_stack_top (interp c)"
      using t top_eq [OF l] by simp
    have m': "mutate env c i1' idx (physical_index (tape i1') idx) f = Inr c'"
      using m L(5) t by simp
    show ?thesis by (rule mutate_ok [OF cok ok' cov' same' m'])
  next
    case out
    then obtain i1 idx phys where l: "locate env c = Inr (i1, idx, phys)"
      and c': "c' = c\<lparr>interp := i1\<lparr>output' := output' i1 @ [cell_at (tape i1) phys]\<rparr>\<rparr>"
      using res by (auto simp: exec_def split: sum.splits if_splits)
    note L = locate_Inr [OF ok l]
    show ?thesis using L(6) cok top_eq [OF l] interp_ok_output(1) [of i1]
      by (simp add: c' config_ok_def)
  next
    case br
    then obtain i1 idx phys where l: "locate env c = Inr (i1, idx, phys)"
      and c': "c' = c\<lparr>interp := i1\<rparr> \<or> jump c i1 = Inr c'"
      using res by (auto simp: exec_def split: sum.splits if_splits)
    note L = locate_Inr [OF ok l]
    show ?thesis using c' L(6) cok top_eq [OF l] jump_ok [OF cok _ _, of i1 c']
      by (auto simp: config_ok_def)
  next
    case push
    then have lt: "pointer_stack_top (interp c) + 1 < MAX_TEMP_DEPTH"
      and c': "c' = c\<lparr>interp := (interp c)
                    \<lparr>pointer_stack_top := pointer_stack_top (interp c) + 1,
                     pointer_stack := (pointer_stack (interp c))
                        [pointer_stack_top (interp c) + 1 :=
                           pointer_stack (interp c) ! current_ptr c]\<rparr>,
                  current_ptr := pointer_stack_top (interp c) + 1\<rparr>"
      using res by (auto simp: exec_def Let_def split: if_splits)
    show ?thesis using interp_ok_push [OF ok lt] by (simp add: c' config_ok_def)
  next
    case pop
    then obtain i1 where top: "pointer_stack_top (interp c) \<noteq> 0"
      and r: "restore_undo_entries (heap env) (interp c) = Inr i1"
      and c': "c' = c\<lparr>interp := i1\<lparr>pointer_stack_top := pointer_stack_top i1 - 1\<rparr>,
                       current_ptr := pointer_stack_top i1 - 1\<rparr>"
      using res by (auto simp: exec_def split: sum.splits if_splits)
    show ?thesis using interp_ok_pop [OF ok top r] by (simp add: c' config_ok_def)
  next
    case other
    then show ?thesis using res cok by (auto simp: exec_def)
  qed
qed

lemma run_step_ok:
  assumes "config_ok c" "run_step env c = Inr c'"
  shows "config_ok c'"
proof -
  obtain c2 where e: "exec env (code (interp c) ! ip c)
                        (c\<lparr>instruction_count := instruction_count c + 1\<rparr>) = Inr c2"
    and c': "c' = c2\<lparr>ip := ip c2 + 1\<rparr>"
    using assms(2) by (auto simp: run_step_def Let_def split: sum.splits)
  have "config_ok (c\<lparr>instruction_count := instruction_count c + 1\<rparr>)"
    using assms(1) by (simp add: config_ok_def)
  then have "config_ok c2" using e by (rule exec_ok)
  then show ?thesis by (simp add: c' config_ok_def)
qed

lemma build_maps_fields:
  assumes "build_maps i0 = Inr i"
  shows "\<exists>bm cm. i = i0\<lparr>bracket_map := bm, brace_map := cm\<rparr>"
  using assms by (auto simp: build_maps_def split: sum.splits prod.splits list.splits)

lemma create_interpreter_fields:
  assumes "create_interpreter env source inp = Inr i"
  shows "\<exists>bm cm. i = fresh (filter_code source) bm cm inp"
    and "length (filter_code source) \<le> MAX_CODE_SIZE"
proof -
  let ?i0 = "fresh (filter_code source) (replicate (length (filter_code source)) (- 1))
               (replicate (length (filter_code source)) (- 1)) inp"
  have b: "build_maps ?i0 = Inr i" and "length (filter_code source) \<le> MAX_CODE_SIZE"
    using assms
    by (auto simp: create_interpreter_def Let_def init_tape_def INITIAL_TAPE_SIZE_def
        fresh_def MAX_TEMP_DEPTH_def split: if_splits)
  then show "length (filter_code source) \<le> MAX_CODE_SIZE" by simp
  from build_maps_fields [OF b] show "\<exists>bm cm. i = fresh (filter_code source) bm cm inp"
    by (auto simp: fresh_def)
qed

lemma config_ok_fresh: "config_ok (start (fresh filtered bm cm inp))"
  by (simp add: config_ok_def interp_ok_def start_def fresh_def tape_ok_def log_ok_def
      MAX_TEMP_DEPTH_def)

lemma create_interpreter_ok:
  assumes "create_interpreter env source inp = Inr i"
  shows "config_ok (start i)"
  using create_interpreter_fields(1) [OF assms] config_ok_fresh by auto

lemma run_for_ok:
  assumes "config_ok c" "run_for env n c = Inr c'"
  shows "config_ok c'"
  using assms
proof (induction n arbitrary: c)
  case 0
  then show ?case by simp
next
  case (Suc n)
  show ?case
  proof (cases "running c")
    case False
    then show ?thesis using Suc.prems by simp
  next
    case True
    then obtain c1 where s: "run_step env c = Inr c1" and r: "run_for env n c1 = Inr c'"
      using Suc.prems(2) by (auto split: sum.splits)
    have "config_ok c1" using Suc.prems(1) s by (rule run_step_ok)
    then show ?thesis using r by (rule Suc.IH)
  qed
qed

lemma run_for_loop:
  assumes "run_for env n c = Inr c'"
  shows "run_loop env c = run_loop env c'"
  using assms
proof (induction n arbitrary: c)
  case 0
  then show ?case by simp
next
  case (Suc n)
  show ?case
  proof (cases "running c")
    case False
    then show ?thesis using Suc.prems by simp
  next
    case True
    then obtain c1 where s: "run_step env c = Inr c1" and r: "run_for env n c1 = Inr c'"
      using Suc.prems by (auto split: sum.splits)
    have "run_loop env c = run_loop env c1"
      using True s by (subst run_loop.simps) simp
    then show ?thesis using Suc.IH [OF r] by simp
  qed
qed

text \<open>
  Claim C8.  When the loop, after any number of turns, fetches \<open>{\<close> while the pointer
  stack holds \<open>MAX_TEMP_DEPTH\<close> scopes (the root and 255 more), the loop and \<open>run\<close>
  end at once with the overflow error and the interpreter exactly as it was before the
  instruction, the undo log with it; when it fetches \<open>}\<close> while only the root scope is
  open they end with the underflow error.  Nothing is tried again.
\<close>

theorem scope_depth_errors:
  assumes "run_for env n c0 = Inr c" and "running c"
  shows "(code (interp c) ! ip c = CHR ''{'' \<and> pointer_stack_top (interp c) + 1 \<ge> MAX_TEMP_DEPTH
            \<longrightarrow> run_loop env c0 = Inl (PointerStackOverflow, interp c)
                \<and> (c0 = start i \<longrightarrow> run env i = (Some PointerStackOverflow, interp c)))
       \<and> (code (interp c) ! ip c = CHR ''}'' \<and> pointer_stack_top (interp c) = 0
            \<longrightarrow> run_loop env c0 = Inl (PointerStackUnderflow, interp c)
                \<and> (c0 = start i \<longrightarrow> run env i = (Some PointerStackUnderflow, interp c)))"
proof -
  have l: "run_loop env c0 = run_loop env c" using assms(1) by (rule run_for_loop)
  have 1: "run_loop env c = Inl (PointerStackOverflow, interp c)"
    if "code (interp c) ! ip c = CHR ''{''" "pointer_stack_top (interp c) + 1 \<ge> MAX_TEMP_DEPTH"
    using that assms(2) by (subst run_loop.simps) (simp add: run_step_def exec_def Let_def)
  have 2: "run_loop env c = Inl (PointerStackUnderflow, interp c)"
    if "code (interp c) ! ip c = CHR ''}''" "pointer_stack_top (interp c) = 0"
    using that assms(2) by (subst run_loop.simps) (simp add: run_step_def exec_def Let_def)
  show ?thesis using l 1 2 by (auto simp: run_def)
qed

theorem scope_depth_errors_witness:
  "run_loop all_ok full_stack = Inl (PointerStackOverflow, interp full_stack)
   \<and> undo_log (interp full_stack) = []
   \<and> run all_ok (fresh ''}'' [- 1] [- 1] []) =
       (Some PointerStackUnderflow, interp (start (fresh ''}'' [- 1] [- 1] [])))"
proof -
  have a: "run_for all_ok 0 full_stack = Inr full_stack" by simp
  have ra: "running full_stack"
    by (simp add: running_def full_stack_def fresh_def code_length_def MAX_INSTRUCTIONS_def)
  have b: "run_for all_ok 0 (start (fresh ''}'' [- 1] [- 1] []))
           = Inr (start (fresh ''}'' [- 1] [- 1] []))" by simp
  have rb: "running (start (fresh ''}'' [- 1] [- 1] []))"
    by (simp add: running_def start_def fresh_def code_length_def MAX_INSTRUCTIONS_def)
  show ?thesis
    using scope_depth_errors [OF a ra, of "fresh ''{'' [- 1] [- 1] []"]
      scope_depth_errors [OF b rb, of "fresh ''}'' [- 1] [- 1] []"]
    by (simp add: full_stack_def fresh_def start_def MAX_TEMP_DEPTH_def)
qed

lemma move_pointer_ip: "move_pointer env c d = Inr c' \<Longrightarrow> ip c' = ip c"
  by (auto simp: move_pointer_def Let_def split: prod.splits if_splits)

lemma mutate_ip: "mutate env c i1 idx phys f = Inr c' \<Longrightarrow> ip c' = ip c"
  by (auto simp: mutate_def split: sum.splits if_splits)

lemma locate_shape:
  assumes "locate env c = Inr (i1, idx, phys)"
  shows "i1 = (interp c)\<lparr>tape := tape i1\<rparr>" and "idx = pointer_stack (interp c) ! current_ptr c"
    and "phys = physical_index (tape i1) idx"
  using assms by (auto simp: locate_def Let_def split: prod.splits if_splits)

lemma bracket_exec:
  assumes cmd: "command = CHR ''['' \<or> command = CHR '']''"
    and res: "exec env command c = Inr c'"
  shows "ip c' = (if (command = CHR ''['' \<and> current_cell c' = 0)
                     \<or> (command = CHR '']'' \<and> current_cell c' \<noteq> 0)
                  then nat (bracket_map (interp c) ! ip c mod 2 ^ 64) else ip c)"
proof -
  obtain i1 idx phys where l: "locate env c = Inr (i1, idx, phys)"
    using res cmd by (auto simp: exec_def split: sum.splits)
  note L = locate_shape [OF l]
  have bm: "bracket_map i1 = bracket_map (interp c)" and ps: "pointer_stack i1 = pointer_stack (interp c)"
    using L(1) by (metis Interpreter.select_convs Interpreter.surjective Interpreter.update_convs(4))+
  have i': "interp c' = i1" and cur: "current_ptr c' = current_ptr c"
    using res cmd l by (auto simp: exec_def jump_def Let_def split: if_splits)
  have cc: "current_cell c' = cell_at (tape i1) phys"
    using L(2,3) by (simp add: current_cell_def i' cur ps)
  show ?thesis
    using res cmd l bm by (auto simp: cc exec_def jump_def Let_def split: if_splits)
qed

lemma other_exec:
  assumes cmd: "command \<noteq> CHR ''[''" "command \<noteq> CHR '']''"
    and res: "exec env command c = Inr c'"
  shows "ip c' = ip c"
  using assms
  by (auto simp: exec_def Let_def split: if_splits sum.splits
      dest: move_pointer_ip mutate_ip)

text \<open>
  Claim C7, as the code has it.  After a turn of the loop that does not jump, \<open>ip\<close>
  is one more than before.  When \<open>[\<close> finds the current cell zero, or \<open>]\<close> finds it
  non-zero, \<open>ip\<close> is set to \<open>bracket_map[ip]\<close> and then advanced by one like after every
  instruction: the next command fetched is the one after the partner bracket, and the
  partner itself is not tested again.
\<close>

theorem ip_after_step:
  assumes "run_step env c = Inr c'"
  shows "ip c' =
     (if (code (interp c) ! ip c = CHR ''['' \<and> current_cell c' = 0)
         \<or> (code (interp c) ! ip c = CHR '']'' \<and> current_cell c' \<noteq> 0)
      then nat (bracket_map (interp c) ! ip c mod 2 ^ 64) + 1
      else ip c + 1)"
proof -
  let ?c1 = "c\<lparr>instruction_count := instruction_count c + 1\<rparr>"
  obtain c2 where e: "exec env (code (interp c) ! ip c) ?c1 = Inr c2"
    and c': "c' = c2\<lparr>ip := ip c2 + 1\<rparr>"
    using assms by (auto simp: run_step_def Let_def split: sum.splits)
  have cc: "\<And>n. current_cell (c2\<lparr>ip := n\<rparr>) = current_cell c2"
    by (simp add: current_cell_def)
  show ?thesis
  proof (cases "code (interp c) ! ip c = CHR ''['' \<or> code (interp c) ! ip c = CHR '']''")
    case True
    from bracket_exec [OF True e] show ?thesis by (simp add: c' cc)
  next
    case False
    then have "ip c2 = ip ?c1" using other_exec [OF _ _ e] by simp
    then show ?thesis using False by (simp add: c')
  qed
qed

lemmas eval_defs = run_step_def exec_def locate_def mutate_def move_pointer_def jump_def
  log_undo_entry_def ensure_tape_capacity_def Let_def physical_index_def in_block_def
  cell_at_def store_def SIZE_MAX_def running_def code_length_def MAX_INSTRUCTIONS_def

lemmas create_defs = create_interpreter_def filter_code_def isspace_def is_command_char_def
  MAX_CODE_SIZE_def init_tape_def INITIAL_TAPE_SIZE_def build_maps_def
  MAX_NESTING_DEPTH_def int_of_pos_def fresh_def MAX_TEMP_DEPTH_def

text \<open>
  Claim C7 as stated fails on the program \<open>[]\<close>: its first turn executes \<open>[\<close> on
  a zero cell with \<open>bracket_map[0] = 1\<close>, and leaves \<open>ip = 2\<close>, past the partner.
\<close>

theorem jump_lands_after_partner:
  "create_interpreter all_ok ''[]'' [] = Inr empty_loop
   \<and> code empty_loop ! ip (start empty_loop) = CHR ''[''
   \<and> run_step all_ok (start empty_loop) = Inr ((start empty_loop)\<lparr>ip := 2, instruction_count := 1\<rparr>)
   \<and> current_cell (start empty_loop) = 0
   \<and> bracket_map empty_loop ! ip (start empty_loop) = 1"
  by (simp add: create_defs all_ok_def empty_loop_def start_def eval_defs current_cell_def)

theorem ip_after_step_witness:
  "ip ((start empty_loop)\<lparr>ip := 2, instruction_count := 1\<rparr>)
     = nat (bracket_map (interp (start empty_loop)) ! ip (start empty_loop) mod 2 ^ 64) + 1"
proof -
  have s: "run_step all_ok (start empty_loop)
             = Inr ((start empty_loop)\<lparr>ip := 2, instruction_count := 1\<rparr>)"
    by (simp add: all_ok_def empty_loop_def fresh_def start_def eval_defs)
  show ?thesis
    using ip_after_step [OF s]
    by (simp add: empty_loop_def fresh_def start_def current_cell_def cell_at_def
        physical_index_def)
qed

lemma mutate_result:
  assumes ok: "interp_ok i1" and cov: "covered (tape i1) idx"
    and blk: "in_block (tape i1) (physical_index (tape i1) idx)"
  shows "mutate env c i1 idx (physical_index (tape i1) idx) f =
           Inr (c\<lparr>interp := (record_entry (heap env) i1 idx)
                     \<lparr>tape := store (tape i1) (physical_index (tape i1) idx)
                                (f (cell_at (tape i1) (physical_index (tape i1) idx)))\<rparr>\<rparr>)"
proof -
  have tok: "tape_ok (tape i1)" using ok by (simp add: interp_ok_def)
  have l: "log_undo_entry (heap env) i1 idx = Inr (record_entry (heap env) i1 idx)"
    using log_undo_entry_result [OF tok cov blk] by (simp add: record_entry_def)
  show ?thesis using blk l by (simp add: mutate_def)
qed

lemma record_entry_stack [simp]:
  "pointer_stack (record_entry hp i idx) = pointer_stack i"
  "pointer_stack_top (record_entry hp i idx) = pointer_stack_top i"
  "input' (record_entry hp i idx) = input' i"
  "output' (record_entry hp i idx) = output' i"
  "code (record_entry hp i idx) = code i"
  "bracket_map (record_entry hp i idx) = bracket_map i"
  by (simp_all add: record_entry_def)

text \<open>
  Claim C9.  A turn of the loop that executes \<open>,\<close>, with the capacity ensured and
  the cell inside the block, always succeeds and moves on to the next instruction:
  at the end of the input the current cell becomes zero, otherwise it becomes the byte
  read, which is taken off the input.
\<close>

theorem read_stores_byte_or_zero:
  assumes ok: "config_ok c" and cmd: "code (interp c) ! ip c = CHR '',''"
    and loc: "locate env c = Inr (i1, idx, phys)" and blk: "in_block (tape i1) phys"
  shows "\<exists>c'. run_step env c = Inr c' \<and> ip c' = ip c + 1
           \<and> current_cell c' = (case input' (interp c) of [] \<Rightarrow> 0 | b # bs \<Rightarrow> b)
           \<and> input' (interp c') = tl (input' (interp c))"
proof -
  let ?c1 = "c\<lparr>instruction_count := instruction_count c + 1\<rparr>"
  let ?v = "case input' (interp c) of [] \<Rightarrow> 0 | b # bs \<Rightarrow> b"
  let ?i1' = "i1\<lparr>input' := tl (input' i1)\<rparr>"
  have iok: "interp_ok (interp c)" using ok by (simp add: config_ok_def)
  note L = locate_Inr [OF iok loc]
  have loc1: "locate env ?c1 = Inr (i1, idx, phys)"
    using loc by (auto simp: locate_def Let_def split: prod.splits if_splits)
  have inp: "input' i1 = input' (interp c)" and ps: "pointer_stack i1 = pointer_stack (interp c)"
    using L(1) by (metis Interpreter.select_convs Interpreter.surjective Interpreter.update_convs(4))+
  have ok': "interp_ok ?i1'" using L(6) by (rule interp_ok_output(2))
  have phys: "phys = physical_index (tape ?i1') idx" using L(5) by simp
  have m: "mutate env ?c1 ?i1' idx phys (\<lambda>v. ?v) =
             Inr (?c1\<lparr>interp := (record_entry (heap env) ?i1' idx)
                        \<lparr>tape := store (tape ?i1') phys ?v\<rparr>\<rparr>)"
    unfolding phys by (rule mutate_result [OF ok']) (use L(3,5) blk in simp_all)
  let ?c' = "?c1\<lparr>interp := (record_entry (heap env) ?i1' idx)
                        \<lparr>tape := store (tape ?i1') phys ?v\<rparr>, ip := ip c + 1\<rparr>"
  have step: "run_step env c = Inr ?c'"
    using cmd loc1 m inp by (simp add: run_step_def exec_def Let_def)
  have cell: "current_cell ?c' = ?v"
    using blk L(4,5)
    by (simp add: current_cell_def ps store_def cell_at_def physical_index_def in_block_def)
  show ?thesis using step cell inp by auto
qed

lemmas eval_defs' = run_step_def exec_def locate_def mutate_def move_pointer_def jump_def
  log_undo_entry_def ensure_tape_capacity_def Let_def physical_index_def in_block_def
  cell_at_def store_def SIZE_MAX_def running_def code_length_def MAX_INSTRUCTIONS_def

theorem read_stores_byte_or_zero_witness:
  "create_interpreter all_ok '','' [] = Inr read_nothing
   \<and> (\<exists>c'. run_step all_ok (start read_nothing) = Inr c' \<and> ip c' = 1
          \<and> current_cell c' = 0 \<and> input' (interp c') = [])
   \<and> create_interpreter all_ok ''+,'' [] = Inr clear_demo
   \<and> run_step all_ok (start clear_demo) = Inr clear_state
   \<and> current_cell clear_state = 1
   \<and> (\<exists>c'. run_step all_ok clear_state = Inr c' \<and> ip c' = 2
          \<and> current_cell c' = 0 \<and> input' (interp c') = [])
   \<and> create_interpreter all_ok '','' [65, 66] = Inr read_demo
   \<and> current_cell (start read_demo) = 0
   \<and> (\<exists>c'. run_step all_ok (start read_demo) = Inr c' \<and> ip c' = 1
          \<and> current_cell c' = 65 \<and> input' (interp c') = [66])"
proof -
  have cr: "create_interpreter all_ok '','' [] = Inr read_nothing"
    by (simp add: create_defs all_ok_def read_nothing_def)
  have ok: "config_ok (start read_nothing)"
    using cr by (rule create_interpreter_ok)
  have cmd: "code (interp (start read_nothing)) ! ip (start read_nothing) = CHR '',''"
    by (simp add: start_def read_nothing_def fresh_def)
  have loc: "locate all_ok (start read_nothing)
               = Inr (interp (start read_nothing), 0, 15000)"
    by (simp add: start_def read_nothing_def fresh_def eval_defs)
  have blk: "in_block (tape (interp (start read_nothing))) 15000"
    by (simp add: start_def read_nothing_def fresh_def in_block_def)
  have a: "\<exists>c'. run_step all_ok (start read_nothing) = Inr c' \<and> ip c' = 1
          \<and> current_cell c' = 0 \<and> input' (interp c') = []"
    using read_stores_byte_or_zero [OF ok cmd loc blk]
    by (simp add: start_def read_nothing_def fresh_def)
  have cr2: "create_interpreter all_ok ''+,'' [] = Inr clear_demo"
    by (simp add: create_defs all_ok_def clear_demo_def)
  have st2: "run_step all_ok (start clear_demo) = Inr clear_state"
    by (simp add: clear_state_def clear_demo_def all_ok_def fresh_def start_def eval_defs)
  have ok2: "config_ok clear_state"
    using create_interpreter_ok [OF cr2] st2 by (rule run_step_ok)
  have cmd2: "code (interp clear_state) ! ip clear_state = CHR '',''"
    by (simp add: clear_state_def clear_demo_def fresh_def start_def)
  have loc2: "locate all_ok clear_state = Inr (interp clear_state, 0, 15000)"
    by (simp add: clear_state_def clear_demo_def fresh_def start_def eval_defs)
  have blk2: "in_block (tape (interp clear_state)) 15000"
    by (simp add: clear_state_def start_def in_block_def)
  have one: "current_cell clear_state = 1"
    by (simp add: clear_state_def clear_demo_def fresh_def start_def current_cell_def cell_at_def
        physical_index_def)
  have v2: "ip clear_state = 1" "input' (interp clear_state) = []"
    by (simp_all add: clear_state_def clear_demo_def fresh_def start_def)
  have b: "\<exists>c'. run_step all_ok clear_state = Inr c' \<and> ip c' = 2
          \<and> current_cell c' = 0 \<and> input' (interp c') = []"
    using read_stores_byte_or_zero [OF ok2 cmd2 loc2 blk2]
    by (simp add: v2 numeral_2_eq_2)
  have cr3: "create_interpreter all_ok '','' [65, 66] = Inr read_demo"
    by (simp add: create_defs all_ok_def read_demo_def)
  have ok3: "config_ok (start read_demo)"
    using cr3 by (rule create_interpreter_ok)
  have cmd3: "code (interp (start read_demo)) ! ip (start read_demo) = CHR '',''"
    by (simp add: start_def read_demo_def fresh_def)
  have loc3: "locate all_ok (start read_demo) = Inr (interp (start read_demo), 0, 15000)"
    by (simp add: start_def read_demo_def fresh_def eval_defs)
  have blk3: "in_block (tape (interp (start read_demo))) 15000"
    by (simp add: start_def read_demo_def fresh_def in_block_def)
  have zero: "current_cell (start read_demo) = 0"
    by (simp add: start_def read_demo_def fresh_def current_cell_def cell_at_def
        physical_index_def)
  have c: "\<exists>c'. run_step all_ok (start read_demo) = Inr c' \<and> ip c' = 1
          \<and> current_cell c' = 65 \<and> input' (interp c') = [66]"
    using read_stores_byte_or_zero [OF ok3 cmd3 loc3 blk3]
    by (simp add: start_def read_demo_def fresh_def)
  show ?thesis using cr a cr2 st2 one b cr3 zero c by simp
qed

lemma create_doubling:
  assumes "create_interpreter env ''++[>++<-]'' inp = Inr i"
  shows "i = doubling inp"
  using assms by (simp add: create_defs Let_def doubling_def split: if_splits)

lemma run_doubling:
  "run env (doubling inp) =
     (None, (doubling inp)\<lparr>tape := \<lparr>cells = (replicate 30000 0)
                        [15000 := 2, 15001 := 2, 15000 := 1, 15001 := 4, 15000 := 0],
                      size' = 30000, zero_offset = 15000\<rparr>,
                   pointer_stack := (replicate 256 0)[0 := 0]\<rparr>)"
  apply (simp add: run_def start_def doubling_def fresh_def)
  apply (simp add: run_loop.simps eval_defs')
  apply (simp add: cleanup.simps)
  done

text \<open>
  Claim C10, as the code has it.  The program \<open>++[>++<-]\<close> contains no \<open>.\<close>:
  created and run with any input, in any environment that lets the interpreter be
  created, it ends with the return value 0, has written nothing to the output and
  read nothing from the input, and leaves 0 in cell 0 and 4 (the 2 doubled) in cell 1.
\<close>

theorem doubling_run:
  assumes "create_interpreter env ''++[>++<-]'' inp = Inr i"
  shows "fst (run env i) = None
       \<and> output' (snd (run env i)) = []
       \<and> input' (snd (run env i)) = inp
       \<and> cell_at (tape (snd (run env i))) (physical_index (tape (snd (run env i))) 0) = 0
       \<and> cell_at (tape (snd (run env i))) (physical_index (tape (snd (run env i))) 1) = 4"
  using create_doubling [OF assms]
  by (simp add: run_doubling) (simp add: doubling_def fresh_def cell_at_def physical_index_def)

text \<open>
  Claim C10 as stated fails: the run of \<open>++[>++<-]\<close> succeeds, but its output is
  empty, not four characters.
\<close>

theorem doubling_writes_nothing:
  "create_interpreter all_ok ''++[>++<-]'' [] = Inr (doubling [])
   \<and> fst (run all_ok (doubling [])) = None
   \<and> length (output' (snd (run all_ok (doubling [])))) = 0"
  by (simp add: run_doubling) (simp add: create_defs all_ok_def doubling_def)

theorem doubling_run_witness:
  "create_interpreter all_ok ''++[>++<-]'' [1, 2] = Inr (doubling [1, 2])
   \<and> fst (run all_ok (doubling [1, 2])) = None
   \<and> output' (snd (run all_ok (doubling [1, 2]))) = []
   \<and> cell_at (tape (snd (run all_ok (doubling [1, 2]))))
        (physical_index (tape (snd (run all_ok (doubling [1, 2])))) 1) = 4"
proof -
  have cr: "create_interpreter all_ok ''++[>++<-]'' [1, 2] = Inr (doubling [1, 2])"
    by (simp add: create_defs all_ok_def doubling_def)
  show ?thesis using doubling_run [OF cr] cr by simp
qed

lemma deepest_ge: "d \<le> deepest d cs"
  by (cases cs) auto

lemma build_scan_iff:
  assumes "length st \<le> MAX_NESTING_DEPTH"
  shows "(\<exists>bm' cm'. build_scan cs i st bm cm = Inr ([], bm', cm'))
         \<longleftrightarrow> well_nested (map opener st) cs \<and> deepest (length st) cs \<le> MAX_NESTING_DEPTH"
  using assms
proof (induction cs arbitrary: i st bm cm)
  case Nil
  then show ?case by auto
next
  case (Cons c cs)
  consider (open_bracket) "c = CHR ''[''" | (open_brace) "c = CHR ''{''"
    | (close_bracket) "c = CHR '']''" | (close_brace) "c = CHR ''}''"
    | (other) "c \<notin> set ''[{]}''" by auto
  then show ?case
  proof cases
    case open_bracket
    show ?thesis
    proof (cases "length st \<ge> MAX_NESTING_DEPTH")
      case True
      then have "\<not> deepest (length st + 1) cs \<le> MAX_NESTING_DEPTH"
        using deepest_ge [of "length st + 1" cs] by simp
      then show ?thesis using True open_bracket by simp
    next
      case False
      then have l: "length (\<lparr>position = i, pair_type = TYPE_BRACKET\<rparr> # st) \<le> MAX_NESTING_DEPTH"
        by simp
      show ?thesis using False open_bracket Cons.IH [OF l] Cons.prems
        by (simp add: opener_def)
    qed
  next
    case open_brace
    show ?thesis
    proof (cases "length st \<ge> MAX_NESTING_DEPTH")
      case True
      then have "\<not> deepest (length st + 1) cs \<le> MAX_NESTING_DEPTH"
        using deepest_ge [of "length st + 1" cs] by simp
      then show ?thesis using True open_brace by simp
    next
      case False
      then have l: "length (\<lparr>position = i, pair_type = TYPE_BRACE\<rparr> # st) \<le> MAX_NESTING_DEPTH"
        by simp
      show ?thesis using False open_brace Cons.IH [OF l] Cons.prems
        by (simp add: opener_def)
    qed
  next
    case close_bracket
    show ?thesis
    proof (cases st)
      case Nil
      then show ?thesis using close_bracket by simp
    next
      case (Cons e rest)
      then have l: "length rest \<le> MAX_NESTING_DEPTH" using Cons.prems by simp
      show ?thesis using Cons close_bracket Cons.IH [OF l] Cons.prems
        by (cases "pair_type e") (auto simp: opener_def)
    qed
  next
    case close_brace
    show ?thesis
    proof (cases st)
      case Nil
      then show ?thesis using close_brace by simp
    next
      case (Cons e rest)
      then have l: "length rest \<le> MAX_NESTING_DEPTH" using Cons.prems by simp
      show ?thesis using Cons close_brace Cons.IH [OF l] Cons.prems
        by (cases "pair_type e") (auto simp: opener_def)
    qed
  next
    case other
    then show ?thesis using Cons.IH [OF Cons.prems] Cons.prems by simp
  qed
qed

lemma build_maps_iff:
  "(\<exists>i'. build_maps i = Inr i')
     \<longleftrightarrow> well_nested [] (code i) \<and> deepest 0 (code i) \<le> MAX_NESTING_DEPTH"
proof -
  have "(\<exists>i'. build_maps i = Inr i')
        \<longleftrightarrow> (\<exists>bm' cm'. build_scan (code i) 0 [] (bracket_map i) (brace_map i) = Inr ([], bm', cm'))"
    by (auto simp: build_maps_def split: sum.splits list.splits)
  then show ?thesis using build_scan_iff [of "[]" "code i" 0 "bracket_map i" "brace_map i"]
    by simp
qed

lemma int_of_pos_small: "p < 2 ^ 31 \<Longrightarrow> int_of_pos p = int p"
  unfolding int_of_pos_def
  by (simp add: signed_of_nat signed_take_bit_int_eq_self)

lemma well_nested_append:
  "well_nested t A \<Longrightarrow> well_nested (t @ s) (A @ R) = well_nested s R"
proof (induction A arbitrary: t)
  case Nil
  then show ?case by simp
next
  case (Cons c A)
  consider (opn) "c = CHR ''['' \<or> c = CHR ''{''" | (bracket) "c = CHR '']''"
    | (brace) "c = CHR ''}''" | (other) "c \<notin> set ''[{]}''" by auto
  then show ?case
  proof cases
    case opn
    then have "well_nested (c # t) A" using Cons.prems by auto
    from Cons.IH [OF this] show ?thesis using opn by auto
  next
    case bracket
    then obtain rest where t: "t = CHR ''['' # rest" and r: "well_nested rest A"
      using Cons.prems by (cases t) auto
    from Cons.IH [OF r] show ?thesis using bracket t by simp
  next
    case brace
    then obtain rest where t: "t = CHR ''{'' # rest" and r: "well_nested rest A"
      using Cons.prems by (cases t) auto
    from Cons.IH [OF r] show ?thesis using brace t by simp
  next
    case other
    then have "well_nested t A" using Cons.prems by auto
    from Cons.IH [OF this] show ?thesis using other by auto
  qed
qed

lemma take_split: "i \<le> j \<Longrightarrow> take (j - i) (drop i cd) = B \<Longrightarrow> take j cd = take i cd @ B"
  using take_add [of i "j - i" cd] by auto

lemma between_split:
  assumes "p < i" "i \<le> j"
  shows "between cd p j = between cd p i @ take (j - i) (drop i cd)"
proof -
  have "j - Suc p = (i - Suc p) + (j - i)" using assms by simp
  then have "take (j - Suc p) (drop (Suc p) cd)
      = take (i - Suc p) (drop (Suc p) cd) @ take (j - i) (drop (i - Suc p) (drop (Suc p) cd))"
    by (simp only: take_add)
  moreover have "drop (i - Suc p) (drop (Suc p) cd) = drop i cd" using assms by simp
  ultimately show ?thesis by (simp add: between_def)
qed

lemma stack_segs_extend:
  assumes "stack_segs cd i st" "i \<le> j" "well_nested [] (take (j - i) (drop i cd))"
  shows "stack_segs cd j st"
proof (cases st)
  case Nil
  have "take j cd = take i cd @ take (j - i) (drop i cd)"
    using assms(2) by (rule take_split) simp
  then show ?thesis
    using assms(1,3) Nil well_nested_append [of "[]" "take i cd" "[]" "take (j - i) (drop i cd)"]
    by simp
next
  case (Cons e rest)
  have p: "position e < i" using assms(1) Cons by simp
  have "between cd (position e) j = between cd (position e) i @ take (j - i) (drop i cd)"
    using p assms(2) by (rule between_split)
  then show ?thesis
    using assms Cons
      well_nested_append [of "[]" "between cd (position e) i" "[]" "take (j - i) (drop i cd)"]
    by simp
qed

lemma stack_segs_skip:
  assumes "stack_segs cd i st" "i < length cd" "cd ! i \<notin> set ''[{]}''"
  shows "stack_segs cd (Suc i) st"
proof -
  have "take (Suc i - i) (drop i cd) = [cd ! i]"
    using assms(2) by (simp add: take_Suc_conv_app_nth)
  then show ?thesis using assms by (intro stack_segs_extend [of cd i st "Suc i"]) auto
qed

lemma stack_segs_push:
  "stack_segs cd i st \<Longrightarrow> stack_segs cd (Suc i) (\<lparr>position = i, pair_type = ty\<rparr> # st)"
  by (simp add: between_def)

lemma segment_around:
  assumes "p < i" "i < length cd"
  shows "take (Suc i - p) (drop p cd) = cd ! p # between cd p i @ [cd ! i]"
proof -
  have d: "drop p cd = cd ! p # drop (Suc p) cd"
    using assms by (simp add: Cons_nth_drop_Suc)
  have s: "Suc i - p = Suc (Suc (i - Suc p))" using assms by simp
  have l: "i - Suc p < length (drop (Suc p) cd)" using assms by simp
  have n: "drop (Suc p) cd ! (i - Suc p) = cd ! i" using assms by simp
  show ?thesis
    unfolding d s between_def
    using take_Suc_conv_app_nth [OF l] n by simp
qed

lemma stack_segs_pop:
  assumes seg: "stack_segs cd i (e # rest)" and i: "i < length cd"
    and o: "cd ! position e = opener e"
    and c: "cd ! i = (if pair_type e = TYPE_BRACKET then CHR '']'' else CHR ''}'')"
  shows "stack_segs cd (Suc i) rest" and "closes cd (position e) i"
proof -
  let ?p = "position e"
  have p: "?p < i" and b: "well_nested [] (between cd ?p i)" and r: "stack_segs cd ?p rest"
    using seg by simp_all
  show "closes cd ?p i" using p i b by (simp add: closes_def)
  have "take (Suc i - ?p) (drop ?p cd) = cd ! ?p # between cd ?p i @ [cd ! i]"
    using p i by (rule segment_around)
  moreover have "well_nested [] (cd ! ?p # between cd ?p i @ [cd ! i])"
    using well_nested_append [OF b, of "[cd ! ?p]" "[cd ! i]"] o c
    by (cases "pair_type e") (simp_all add: opener_def)
  ultimately show "stack_segs cd (Suc i) rest"
    using r p by (intro stack_segs_extend [of cd ?p rest "Suc i"]) simp_all
qed

lemma scan_inv_skip:
  assumes "scan_inv opn cls ty cd i st m" "cd ! i \<noteq> opn" "cd ! i \<noteq> cls"
    and "open_positions ty st' = open_positions ty st"
  shows "scan_inv opn cls ty cd (Suc i) st' m"
  unfolding scan_inv_def
proof (intro conjI allI impI)
  fix p assume "p < Suc i" "cd ! p = opn"
  then have "p < i" using assms(2) by (cases "p = i") auto
  then show "p \<in> open_positions ty st'
        \<or> (\<exists>q. closes cd p q \<and> q < Suc i \<and> cd ! q = cls \<and> m ! p = int q \<and> m ! q = int p)"
    using assms(1,4) \<open>cd ! p = opn\<close> unfolding scan_inv_def by (metis less_SucI)
next
  fix p assume "p < Suc i" "cd ! p = cls"
  then have "p < i" using assms(3) by (cases "p = i") auto
  then show "\<exists>q. closes cd q p \<and> cd ! q = opn \<and> q \<notin> open_positions ty st'
                \<and> m ! p = int q \<and> m ! q = int p"
    using assms(1,4) \<open>cd ! p = cls\<close> unfolding scan_inv_def by metis
qed

lemma scan_inv_push:
  assumes inv: "scan_inv opn cls ty cd i st m" and c: "cd ! i = opn" "opn \<noteq> cls"
  shows "scan_inv opn cls ty cd (Suc i) (\<lparr>position = i, pair_type = ty\<rparr> # st) m"
  unfolding scan_inv_def
proof (intro conjI allI impI)
  let ?st = "\<lparr>position = i, pair_type = ty\<rparr> # st"
  have "{e \<in> set ?st. pair_type e = ty}
          = insert \<lparr>position = i, pair_type = ty\<rparr> {e \<in> set st. pair_type e = ty}"
    by auto
  then have op: "open_positions ty ?st = insert i (open_positions ty st)"
    by (simp add: open_positions_def)
  {
    fix p assume p: "p < Suc i" "cd ! p = opn"
    show "p \<in> open_positions ty ?st
        \<or> (\<exists>q. closes cd p q \<and> q < Suc i \<and> cd ! q = cls \<and> m ! p = int q \<and> m ! q = int p)"
    proof (cases "p = i")
      case True
      then show ?thesis by (simp add: op)
    next
      case False
      then have "p < i" using p by simp
      then show ?thesis using inv p(2) unfolding scan_inv_def op by (metis insertI2 less_SucI)
    qed
  }
  {
    fix p assume p: "p < Suc i" "cd ! p = cls"
    then have "p < i" using c by (cases "p = i") auto
    then obtain q where q: "closes cd q p" "cd ! q = opn" "q \<notin> open_positions ty st"
        "m ! p = int q" "m ! q = int p"
      using inv p(2) unfolding scan_inv_def by blast
    have "q < p" using q(1) by (simp add: closes_def)
    then have "q \<noteq> i" using \<open>p < i\<close> by simp
    then show "\<exists>q. closes cd q p \<and> cd ! q = opn \<and> q \<notin> open_positions ty ?st
        \<and> m ! p = int q \<and> m ! q = int p"
      using q unfolding op by blast
  }
qed

lemma scan_inv_pop:
  assumes inv: "scan_inv opn cls ty cd i (e # rest) m" and st: "stack_inv cd i (e # rest)"
    and ty: "pair_type e = ty" "opener e = opn" and c: "cd ! i = cls" "opn \<noteq> cls"
    and len: "i < length m" and cl: "closes cd (position e) i"
  shows "scan_inv opn cls ty cd (Suc i) rest (m[i := int (position e), position e := int i])"
  unfolding scan_inv_def
proof (intro conjI allI impI)
  let ?o = "position e"
  let ?m = "m[i := int ?o, ?o := int i]"
  have o: "?o < i" "cd ! ?o = opn" using st ty by (simp_all add: stack_inv_def)
  have mo: "?m ! ?o = int i" using o len by simp
  have mi: "?m ! i = int ?o" using o len by simp
  have keep: "\<And>p. p \<noteq> i \<Longrightarrow> p \<noteq> ?o \<Longrightarrow> ?m ! p = m ! p" by simp
  have notin: "?o \<notin> open_positions ty rest"
    using st by (auto simp: stack_inv_def open_positions_def)
  have "{x \<in> set (e # rest). pair_type x = ty} = insert e {x \<in> set rest. pair_type x = ty}"
    using ty by auto
  then have op: "open_positions ty (e # rest) = insert ?o (open_positions ty rest)"
    by (simp add: open_positions_def)
  {
    fix p assume p: "p < Suc i" "cd ! p = opn"
    then have pi: "p < i" using c by (cases "p = i") auto
    show "p \<in> open_positions ty rest
        \<or> (\<exists>q. closes cd p q \<and> q < Suc i \<and> cd ! q = cls \<and> ?m ! p = int q \<and> ?m ! q = int p)"
    proof (cases "p = ?o")
      case True
      then show ?thesis using o c mo mi cl by auto
    next
      case False
      show ?thesis
      proof (cases "p \<in> open_positions ty rest")
        case True
        then show ?thesis by simp
      next
        case nin: False
        then have "p \<notin> open_positions ty (e # rest)" using False by (simp add: op)
        then obtain q where q: "closes cd p q" "q < i" "cd ! q = cls" "m ! p = int q"
            "m ! q = int p"
          using inv pi p(2) unfolding scan_inv_def by blast
        have "q \<noteq> ?o" using q(3) o(2) c(2) by auto
        then have "?m ! q = m ! q" "?m ! p = m ! p" using q(2) pi False keep by auto
        then show ?thesis using q by (metis less_SucI)
      qed
    qed
  }
  {
    fix p assume p: "p < Suc i" "cd ! p = cls"
    show "\<exists>q. closes cd q p \<and> cd ! q = opn \<and> q \<notin> open_positions ty rest
             \<and> ?m ! p = int q \<and> ?m ! q = int p"
    proof (cases "p = i")
      case True
      then show ?thesis using o notin mo mi cl by auto
    next
      case False
      then have pi: "p < i" using p by simp
      then obtain q where q: "closes cd q p" "cd ! q = opn" "q \<notin> open_positions ty (e # rest)"
          "m ! p = int q" "m ! q = int p"
        using inv p(2) unfolding scan_inv_def by blast
      have qp: "q < p" using q(1) by (simp add: closes_def)
      have "q \<noteq> ?o" "q \<notin> open_positions ty rest" using q(3) by (simp_all add: op)
      moreover have "p \<noteq> ?o" using p(2) o(2) c(2) by auto
      moreover have "q \<noteq> i" using qp pi by simp
      ultimately have "?m ! q = m ! q" "?m ! p = m ! p" using False keep by auto
      then show ?thesis using q \<open>q \<notin> open_positions ty rest\<close> by metis
    qed
  }
qed

lemma open_positions_other:
  "pair_type e \<noteq> ty \<Longrightarrow> open_positions ty (e # st) = open_positions ty st"
  by (auto simp: open_positions_def)

lemma stack_inv_skip: "stack_inv cd i st \<Longrightarrow> stack_inv cd (Suc i) st"
  by (auto simp: stack_inv_def)

lemma stack_inv_push:
  "stack_inv cd i st \<Longrightarrow> cd ! i = opener \<lparr>position = i, pair_type = ty\<rparr>
     \<Longrightarrow> stack_inv cd (Suc i) (\<lparr>position = i, pair_type = ty\<rparr> # st)"
  by (auto simp: stack_inv_def)

lemma stack_inv_pop: "stack_inv cd i (e # rest) \<Longrightarrow> stack_inv cd (Suc i) rest"
  by (auto simp: stack_inv_def)

lemma build_scan_inv:
  assumes "build_scan cs i st bm cm = Inr (st', bm', cm')"
    and "cd = pre @ cs" "i = length pre" "length bm = length cd" "length cm = length cd"
    and "length cd < 2 ^ 31"
    and "stack_inv cd i st"
    and "scan_inv CHR ''['' CHR '']'' TYPE_BRACKET cd i st bm"
    and "scan_inv CHR ''{'' CHR ''}'' TYPE_BRACE cd i st cm"
    and "stack_segs cd i st"
  shows "scan_inv CHR ''['' CHR '']'' TYPE_BRACKET cd (length cd) st' bm'
       \<and> scan_inv CHR ''{'' CHR ''}'' TYPE_BRACE cd (length cd) st' cm'"
  using assms
proof (induction cs arbitrary: pre i st bm cm)
  case Nil
  then show ?case by simp
next
  case (Cons c cs)
  have ci: "cd ! i = c" using Cons.prems(2,3) by simp
  have cd': "cd = (pre @ [c]) @ cs" and i': "Suc i = length (pre @ [c])"
    using Cons.prems(2,3) by simp_all
  have ilt: "i < length cd" using Cons.prems(2,3) by simp
  note IH = Cons.IH [OF _ cd' i' _ _ Cons.prems(6)]
  consider (open_bracket) "c = CHR ''[''" | (open_brace) "c = CHR ''{''"
    | (close_bracket) "c = CHR '']''" | (close_brace) "c = CHR ''}''"
    | (other) "c \<notin> set ''[{]}''" by auto
  then show ?case
  proof cases
    case open_bracket
    let ?st = "\<lparr>position = i, pair_type = TYPE_BRACKET\<rparr> # st"
    have r: "build_scan cs (Suc i) ?st bm cm = Inr (st', bm', cm')"
      using Cons.prems(1) open_bracket by (simp split: if_splits)
    have s: "stack_inv cd (Suc i) ?st"
      using Cons.prems(7) ci open_bracket by (intro stack_inv_push) (simp_all add: opener_def)
    have a: "scan_inv CHR ''['' CHR '']'' TYPE_BRACKET cd (Suc i) ?st bm"
      using Cons.prems(8) ci open_bracket by (intro scan_inv_push) simp_all
    have b: "scan_inv CHR ''{'' CHR ''}'' TYPE_BRACE cd (Suc i) ?st cm"
      using Cons.prems(9) ci open_bracket
      by (intro scan_inv_skip [where st = st]) (simp_all add: open_positions_other)
    have g: "stack_segs cd (Suc i) ?st" using Cons.prems(10) by (rule stack_segs_push)
    show ?thesis by (rule IH [OF r Cons.prems(4,5) s a b g])
  next
    case open_brace
    let ?st = "\<lparr>position = i, pair_type = TYPE_BRACE\<rparr> # st"
    have r: "build_scan cs (Suc i) ?st bm cm = Inr (st', bm', cm')"
      using Cons.prems(1) open_brace by (simp split: if_splits)
    have s: "stack_inv cd (Suc i) ?st"
      using Cons.prems(7) ci open_brace by (intro stack_inv_push) (simp_all add: opener_def)
    have a: "scan_inv CHR ''['' CHR '']'' TYPE_BRACKET cd (Suc i) ?st bm"
      using Cons.prems(8) ci open_brace
      by (intro scan_inv_skip [where st = st]) (simp_all add: open_positions_other)
    have b: "scan_inv CHR ''{'' CHR ''}'' TYPE_BRACE cd (Suc i) ?st cm"
      using Cons.prems(9) ci open_brace by (intro scan_inv_push) simp_all
    have g: "stack_segs cd (Suc i) ?st" using Cons.prems(10) by (rule stack_segs_push)
    show ?thesis by (rule IH [OF r Cons.prems(4,5) s a b g])
  next
    case close_bracket
    then obtain e rest where st: "st = e # rest" and ty: "pair_type e = TYPE_BRACKET"
      and r0: "build_scan cs (Suc i) rest
                 (bm[i := int_of_pos (position e), position e := int_of_pos i]) cm
               = Inr (st', bm', cm')"
      using Cons.prems(1) by (auto split: list.splits if_splits)
    have pe: "position e < i" and oe: "cd ! position e = opener e"
      using Cons.prems(7) st by (simp_all add: stack_inv_def)
    have conv: "int_of_pos (position e) = int (position e)" "int_of_pos i = int i"
      using pe ilt Cons.prems(6) by (simp_all add: int_of_pos_small)
    let ?bm = "bm[i := int (position e), position e := int i]"
    have r: "build_scan cs (Suc i) rest ?bm cm = Inr (st', bm', cm')"
      using r0 by (simp add: conv)
    have s: "stack_inv cd (Suc i) rest"
      using Cons.prems(7) st by (auto intro: stack_inv_pop)
    have sg: "stack_segs cd i (e # rest)" using Cons.prems(10) st by simp
    have cc: "cd ! i = (if pair_type e = TYPE_BRACKET then CHR '']'' else CHR ''}'')"
      using ci close_bracket ty by simp
    note G = stack_segs_pop [OF sg ilt oe cc]
    have a: "scan_inv CHR ''['' CHR '']'' TYPE_BRACKET cd (Suc i) rest ?bm"
      using Cons.prems(7,8) st ty ci close_bracket ilt Cons.prems(4) G(2)
      by (intro scan_inv_pop) (simp_all add: opener_def)
    have b: "scan_inv CHR ''{'' CHR ''}'' TYPE_BRACE cd (Suc i) rest cm"
      using Cons.prems(9) ci close_bracket st ty
      by (intro scan_inv_skip [where st = st]) (simp_all add: open_positions_other)
    have l: "length ?bm = length cd" using Cons.prems(4) by simp
    show ?thesis by (rule IH [OF r l Cons.prems(5) s a b G(1)])
  next
    case close_brace
    then obtain e rest where st: "st = e # rest" and ty: "pair_type e = TYPE_BRACE"
      and r0: "build_scan cs (Suc i) rest bm
                 (cm[i := int_of_pos (position e), position e := int_of_pos i])
               = Inr (st', bm', cm')"
      using Cons.prems(1) by (auto split: list.splits if_splits)
    have pe: "position e < i" and oe: "cd ! position e = opener e"
      using Cons.prems(7) st by (simp_all add: stack_inv_def)
    have conv: "int_of_pos (position e) = int (position e)" "int_of_pos i = int i"
      using pe ilt Cons.prems(6) by (simp_all add: int_of_pos_small)
    let ?cm = "cm[i := int (position e), position e := int i]"
    have r: "build_scan cs (Suc i) rest bm ?cm = Inr (st', bm', cm')"
      using r0 by (simp add: conv)
    have s: "stack_inv cd (Suc i) rest"
      using Cons.prems(7) st by (auto intro: stack_inv_pop)
    have sg: "stack_segs cd i (e # rest)" using Cons.prems(10) st by simp
    have cc: "cd ! i = (if pair_type e = TYPE_BRACKET then CHR '']'' else CHR ''}'')"
      using ci close_brace ty by simp
    note G = stack_segs_pop [OF sg ilt oe cc]
    have a: "scan_inv CHR ''['' CHR '']'' TYPE_BRACKET cd (Suc i) rest bm"
      using Cons.prems(8) ci close_brace st ty
      by (intro scan_inv_skip [where st = st]) (simp_all add: open_positions_other)
    have b: "scan_inv CHR ''{'' CHR ''}'' TYPE_BRACE cd (Suc i) rest ?cm"
      using Cons.prems(7,9) st ty ci close_brace ilt Cons.prems(5) G(2)
      by (intro scan_inv_pop) (simp_all add: opener_def)
    have l: "length ?cm = length cd" using Cons.prems(5) by simp
    show ?thesis by (rule IH [OF r Cons.prems(4) l s a b G(1)])
  next
    case other
    have r: "build_scan cs (Suc i) st bm cm = Inr (st', bm', cm')"
      using Cons.prems(1) other by simp
    have s: "stack_inv cd (Suc i) st" using Cons.prems(7) by (rule stack_inv_skip)
    have a: "scan_inv CHR ''['' CHR '']'' TYPE_BRACKET cd (Suc i) st bm"
      using Cons.prems(8) ci other by (intro scan_inv_skip [where st = st]) auto
    have b: "scan_inv CHR ''{'' CHR ''}'' TYPE_BRACE cd (Suc i) st cm"
      using Cons.prems(9) ci other by (intro scan_inv_skip [where st = st]) auto
    have g: "stack_segs cd (Suc i) st"
      using Cons.prems(10) ilt ci other by (intro stack_segs_skip) simp_all
    show ?thesis by (rule IH [OF r Cons.prems(4,5) s a b g])
  qed
qed

lemma scan_inv_done:
  assumes "scan_inv opn cls ty cd (length cd) [] m"
  shows "partners opn cls cd m"
  unfolding partners_def
proof (intro allI impI conjI)
  fix p assume p: "p < length cd" "cd ! p = opn"
  then obtain q where "closes cd p q" "q < length cd" "cd ! q = cls" "m ! p = int q"
      "m ! q = int p"
    using assms unfolding scan_inv_def open_positions_def by auto
  then show "\<exists>q<length cd. closes cd p q \<and> cd ! q = cls \<and> m ! p = int q \<and> m ! q = int p"
    by blast
next
  fix p assume p: "p < length cd" "cd ! p = cls"
  then obtain q where q: "closes cd q p" "cd ! q = opn" "m ! p = int q" "m ! q = int p"
    using assms unfolding scan_inv_def by blast
  then have "q < length cd" using p(1) by (simp add: closes_def)
  then show "\<exists>q<length cd. closes cd q p \<and> cd ! q = opn \<and> m ! p = int q \<and> m ! q = int p"
    using q by blast
qed

lemma build_maps_partners:
  assumes res: "build_maps i = Inr i'" and len: "length (code i) \<le> MAX_CODE_SIZE"
    and lb: "length (bracket_map i) = length (code i)"
    and lc: "length (brace_map i) = length (code i)"
  shows "partners CHR ''['' CHR '']'' (code i) (bracket_map i')
       \<and> partners CHR ''{'' CHR ''}'' (code i) (brace_map i')"
proof -
  obtain bm' cm' where sc: "build_scan (code i) 0 [] (bracket_map i) (brace_map i)
                              = Inr ([], bm', cm')"
    and i': "i' = i\<lparr>bracket_map := bm', brace_map := cm'\<rparr>"
    using res by (auto simp: build_maps_def split: sum.splits list.splits)
  have small: "length (code i) < 2 ^ 31" using len by (simp add: MAX_CODE_SIZE_def)
  have "scan_inv CHR ''['' CHR '']'' TYPE_BRACKET (code i) (length (code i)) [] bm'
      \<and> scan_inv CHR ''{'' CHR ''}'' TYPE_BRACE (code i) (length (code i)) [] cm'"
    by (rule build_scan_inv [OF sc, of "code i" "[]"])
       (use small in \<open>simp_all add: lb lc stack_inv_def scan_inv_def\<close>)
  then show ?thesis by (auto simp: i' intro: scan_inv_done)
qed

lemma partners_inverse:
  assumes "partners opn cls cd m" "p < length cd" "cd ! p = opn \<or> cd ! p = cls"
  shows "m ! p \<noteq> - 1 \<and> 0 \<le> m ! p \<and> nat (m ! p) < length cd \<and> m ! nat (m ! p) = int p"
proof -
  obtain q where "q < length cd" "m ! p = int q" "m ! q = int p"
    using assms unfolding partners_def by metis
  then show ?thesis by simp
qed

text \<open>
  The partner relation names one closer for an opener: a closer nearer than \<open>q'\<close>
  with well-nested code before it leaves the code up to \<open>q'\<close> with a closer too many.
\<close>

lemma closes_unique:
  assumes a: "closes cd p q" and b: "closes cd p q'"
    and c: "cd ! q \<in> set '']}''" "cd ! q' \<in> set '']}''"
  shows "q = q'"
proof -
  have far: False
    if x: "closes cd p x" and y: "closes cd p y" and xy: "x < y" and cx: "cd ! x \<in> set '']}''"
    for x y
  proof -
    have px: "p < x" and wx: "well_nested [] (between cd p x)"
      and ylen: "y < length cd" and wy: "well_nested [] (between cd p y)"
      using x y by (simp_all add: closes_def)
    have "drop x cd = cd ! x # drop (Suc x) cd"
      using xy ylen by (simp add: Cons_nth_drop_Suc)
    moreover have "y - x = Suc (y - Suc x)" using xy by simp
    ultimately have "take (y - x) (drop x cd) = cd ! x # take (y - Suc x) (drop (Suc x) cd)"
      by simp
    then have "between cd p y = between cd p x @ cd ! x # take (y - Suc x) (drop (Suc x) cd)"
      using between_split [of p x y cd] px xy by simp
    then have "well_nested [] (cd ! x # take (y - Suc x) (drop (Suc x) cd))"
      using wy well_nested_append [OF wx, of "[]" "cd ! x # take (y - Suc x) (drop (Suc x) cd)"]
      by simp
    then show False using cx by auto
  qed
  show ?thesis
  proof (cases q q' rule: linorder_cases)
    case less
    then show ?thesis using far [OF a b less c(1)] by simp
  next
    case equal
    then show ?thesis .
  next
    case greater
    then show ?thesis using far [OF b a greater c(2)] by simp
  qed
qed

text \<open>
  Claim C3, as the code has it.  For a filtered program as \<open>create_interpreter\<close> passes
  it on (at most \<open>MAX_CODE_SIZE\<close> characters, both tables as long as the code),
  \<open>build_maps\<close> succeeds if and only if the program is well nested and never has more
  than \<open>MAX_NESTING_DEPTH\<close> symbols open at one time.  On success every \<open>[\<close>, \<open>]\<close>, \<open>{\<close>
  and \<open>}\<close> has its partner's position in its family's table: for a closer the opener
  it closes, the nearest one before it that is still unclosed, the code between the
  two being well nested by itself, and for an opener the closer that closes it.  No
  such entry is -1, and each table is its own inverse on these positions.
\<close>

theorem build_maps_correct:
  assumes "length (code i) \<le> MAX_CODE_SIZE"
    and "length (bracket_map i) = length (code i)"
    and "length (brace_map i) = length (code i)"
  shows "((\<exists>i'. build_maps i = Inr i')
            \<longleftrightarrow> well_nested [] (code i) \<and> deepest 0 (code i) \<le> MAX_NESTING_DEPTH)
       \<and> (\<forall>i'. build_maps i = Inr i' \<longrightarrow>
             partners CHR ''['' CHR '']'' (code i) (bracket_map i')
           \<and> partners CHR ''{'' CHR ''}'' (code i) (brace_map i')
           \<and> (\<forall>p < length (code i).
                 (code i ! p = CHR ''['' \<or> code i ! p = CHR '']'' \<longrightarrow>
                    bracket_map i' ! p \<noteq> - 1
                    \<and> bracket_map i' ! nat (bracket_map i' ! p) = int p)
               \<and> (code i ! p = CHR ''{'' \<or> code i ! p = CHR ''}'' \<longrightarrow>
                    brace_map i' ! p \<noteq> - 1
                    \<and> brace_map i' ! nat (brace_map i' ! p) = int p)
               \<and> (code i ! p = CHR '']'' \<longrightarrow>
                    closes (code i) (nat (bracket_map i' ! p)) p
                    \<and> code i ! nat (bracket_map i' ! p) = CHR ''['')
               \<and> (code i ! p = CHR ''}'' \<longrightarrow>
                    closes (code i) (nat (brace_map i' ! p)) p
                    \<and> code i ! nat (brace_map i' ! p) = CHR ''{'')
               \<and> (code i ! p = CHR ''['' \<longrightarrow>
                    closes (code i) p (nat (bracket_map i' ! p))
                    \<and> code i ! nat (bracket_map i' ! p) = CHR '']'')
               \<and> (code i ! p = CHR ''{'' \<longrightarrow>
                    closes (code i) p (nat (brace_map i' ! p))
                    \<and> code i ! nat (brace_map i' ! p) = CHR ''}'')))"
proof (intro conjI allI impI)
  show "(\<exists>i'. build_maps i = Inr i')
          \<longleftrightarrow> well_nested [] (code i) \<and> deepest 0 (code i) \<le> MAX_NESTING_DEPTH"
    by (rule build_maps_iff)
next
  fix i' assume r: "build_maps i = Inr i'"
  note P = build_maps_partners [OF r assms]
  show "partners CHR ''['' CHR '']'' (code i) (bracket_map i')" using P by simp
  show "partners CHR ''{'' CHR ''}'' (code i) (brace_map i')" using P by simp
  fix p assume p: "p < length (code i)"
  {
    assume "code i ! p = CHR ''['' \<or> code i ! p = CHR '']''"
    then show "bracket_map i' ! p \<noteq> - 1" "bracket_map i' ! nat (bracket_map i' ! p) = int p"
      using partners_inverse [OF conjunct1 [OF P] p] by simp_all
  }
  {
    assume "code i ! p = CHR ''{'' \<or> code i ! p = CHR ''}''"
    then show "brace_map i' ! p \<noteq> - 1" "brace_map i' ! nat (brace_map i' ! p) = int p"
      using partners_inverse [OF conjunct2 [OF P] p] by simp_all
  }
  {
    assume "code i ! p = CHR '']''"
    then obtain q where "closes (code i) q p" "code i ! q = CHR ''[''" "bracket_map i' ! p = int q"
      using conjunct1 [OF P] p unfolding partners_def by blast
    then show "closes (code i) (nat (bracket_map i' ! p)) p"
      "code i ! nat (bracket_map i' ! p) = CHR ''[''" by simp_all
  }
  {
    assume "code i ! p = CHR ''}''"
    then obtain q where "closes (code i) q p" "code i ! q = CHR ''{''" "brace_map i' ! p = int q"
      using conjunct2 [OF P] p unfolding partners_def by blast
    then show "closes (code i) (nat (brace_map i' ! p)) p"
      "code i ! nat (brace_map i' ! p) = CHR ''{''" by simp_all
  }
  {
    assume "code i ! p = CHR ''[''"
    then obtain q where "closes (code i) p q" "code i ! q = CHR '']''" "bracket_map i' ! p = int q"
      using conjunct1 [OF P] p unfolding partners_def by blast
    then show "closes (code i) p (nat (bracket_map i' ! p))"
      "code i ! nat (bracket_map i' ! p) = CHR '']''" by simp_all
  }
  {
    assume "code i ! p = CHR ''{''"
    then obtain q where "closes (code i) p q" "code i ! q = CHR ''}''" "brace_map i' ! p = int q"
      using conjunct2 [OF P] p unfolding partners_def by blast
    then show "closes (code i) p (nat (brace_map i' ! p))"
      "code i ! nat (brace_map i' ! p) = CHR ''}''" by simp_all
  }
qed

theorem build_maps_correct_witness:
  "build_maps (fresh ''[{}]'' [- 1, - 1, - 1, - 1] [- 1, - 1, - 1, - 1] [])
     = Inr (fresh ''[{}]'' [3, - 1, - 1, 0] [- 1, 2, 1, - 1] [])
   \<and> well_nested [] ''[{}]''
   \<and> partners CHR ''['' CHR '']'' ''[{}]'' [3, - 1, - 1, 0]
   \<and> partners CHR ''{'' CHR ''}'' ''[{}]'' [- 1, 2, 1, - 1]
   \<and> build_maps (fresh ''[{]}'' [- 1, - 1, - 1, - 1] [- 1, - 1, - 1, - 1] [])
     = Inl (MismatchedPair 2 1)
   \<and> \<not> well_nested [] ''[{]}''
   \<and> build_maps (fresh ''[[]]'' [- 1, - 1, - 1, - 1] [- 1, - 1, - 1, - 1] [])
     = Inr (fresh ''[[]]'' [3, 2, 1, 0] [- 1, - 1, - 1, - 1] [])
   \<and> partners CHR ''['' CHR '']'' ''[[]]'' [3, 2, 1, 0]
   \<and> closes ''[[]]'' 0 3 \<and> closes ''[[]]'' 1 2
   \<and> \<not> closes ''[[]]'' 0 2 \<and> \<not> closes ''[[]]'' 1 3
   \<and> \<not> partners CHR ''['' CHR '']'' ''[[]]'' [2, 3, 0, 1]"
proof -
  let ?i = "fresh ''[{}]'' [- 1, - 1, - 1, - 1] [- 1, - 1, - 1, - 1] []"
  let ?j = "fresh ''[{]}'' [- 1, - 1, - 1, - 1] [- 1, - 1, - 1, - 1] []"
  let ?k = "fresh ''[[]]'' [- 1, - 1, - 1, - 1] [- 1, - 1, - 1, - 1] []"
  have b: "build_maps ?i = Inr (fresh ''[{}]'' [3, - 1, - 1, 0] [- 1, 2, 1, - 1] [])"
    by (simp add: build_maps_def fresh_def MAX_NESTING_DEPTH_def int_of_pos_def)
  have c: "build_maps ?j = Inl (MismatchedPair 2 1)"
    by (simp add: build_maps_def fresh_def MAX_NESTING_DEPTH_def int_of_pos_def)
  have d: "build_maps ?k = Inr (fresh ''[[]]'' [3, 2, 1, 0] [- 1, - 1, - 1, - 1] [])"
    by (simp add: build_maps_def fresh_def MAX_NESTING_DEPTH_def int_of_pos_def)
  have hi: "length (code ?i) \<le> MAX_CODE_SIZE" "length (bracket_map ?i) = length (code ?i)"
    "length (brace_map ?i) = length (code ?i)"
    by (simp_all add: fresh_def MAX_CODE_SIZE_def)
  have hj: "length (code ?j) \<le> MAX_CODE_SIZE" "length (bracket_map ?j) = length (code ?j)"
    "length (brace_map ?j) = length (code ?j)"
    by (simp_all add: fresh_def MAX_CODE_SIZE_def)
  have hk: "length (code ?k) \<le> MAX_CODE_SIZE" "length (bracket_map ?k) = length (code ?k)"
    "length (brace_map ?k) = length (code ?k)"
    by (simp_all add: fresh_def MAX_CODE_SIZE_def)
  have ci: "code ?i = ''[{}]''" and cj: "code ?j = ''[{]}''" and ck: "code ?k = ''[[]]''"
    by (simp_all add: fresh_def)
  from build_maps_correct [OF hi] b
  have 1: "well_nested [] ''[{}]''"
    and 2: "partners CHR ''['' CHR '']'' ''[{}]'' [3, - 1, - 1, 0]"
    and 3: "partners CHR ''{'' CHR ''}'' ''[{}]'' [- 1, 2, 1, - 1]"
    unfolding ci by (auto simp: fresh_def)
  from build_maps_correct [OF hj] c
  have 4: "\<not> (well_nested [] ''[{]}'' \<and> deepest 0 ''[{]}'' \<le> MAX_NESTING_DEPTH)"
    unfolding cj by auto
  have 5: "deepest 0 ''[{]}'' \<le> MAX_NESTING_DEPTH" by (simp add: MAX_NESTING_DEPTH_def)
  from build_maps_correct [OF hk] d
  have 6: "partners CHR ''['' CHR '']'' ''[[]]'' [3, 2, 1, 0]"
    unfolding ck by (auto simp: fresh_def)
  have 7: "closes ''[[]]'' 0 3" "closes ''[[]]'' 1 2" "\<not> closes ''[[]]'' 0 2"
    "\<not> closes ''[[]]'' 1 3"
    by (simp_all add: closes_def between_def)
  have 8: "\<not> partners CHR ''['' CHR '']'' ''[[]]'' [2, 3, 0, 1]"
  proof
    assume "partners CHR ''['' CHR '']'' ''[[]]'' [2, 3, 0, 1]"
    then have "\<exists>q < length ''[[]]''. closes ''[[]]'' 0 q \<and> ''[[]]'' ! q = CHR '']''
                 \<and> [2, 3, 0, 1] ! 0 = int q \<and> [2, 3, 0, 1] ! q = (int 0)"
      unfolding partners_def by (elim allE [of _ 0]) simp
    then have "closes ''[[]]'' 0 2" by auto
    then show False using 7(3) by simp
  qed
  show ?thesis using b c d 1 2 3 4 5 6 7 8 by simp
qed

lemma well_nested_opens:
  "well_nested st (replicate n CHR ''['' @ cs) = well_nested (replicate n CHR ''['' @ st) cs"
proof (induction n arbitrary: st)
  case 0
  then show ?case by simp
next
  case (Suc n)
  show ?case using Suc [of "CHR ''['' # st"] by (simp add: replicate_app_Cons_same)
qed

lemma well_nested_closes:
  "well_nested (replicate n CHR ''['' @ st) (replicate n CHR '']'' @ cs) = well_nested st cs"
  by (induction n) simp_all

lemma build_scan_deep:
  assumes "length st \<le> MAX_NESTING_DEPTH" "length st + n > MAX_NESTING_DEPTH"
  shows "build_scan (replicate n CHR ''['' @ cs) i st bm cm
           = Inl (NestingDepthExceeded (i + (MAX_NESTING_DEPTH - length st)))"
  using assms
proof (induction n arbitrary: i st)
  case 0
  then show ?case by simp
next
  case (Suc n)
  show ?case
  proof (cases "length st \<ge> MAX_NESTING_DEPTH")
    case True
    then show ?thesis using Suc.prems by simp
  next
    case False
    let ?st = "\<lparr>position = i, pair_type = TYPE_BRACKET\<rparr> # st"
    have "build_scan (replicate n CHR ''['' @ cs) (i + 1) ?st bm cm
            = Inl (NestingDepthExceeded (i + 1 + (MAX_NESTING_DEPTH - length ?st)))"
      using False Suc.prems by (intro Suc.IH) simp_all
    then show ?thesis using False by simp
  qed
qed

lemma filter_loop_commands:
  "\<forall>c \<in> set cs. is_command_char c \<Longrightarrow> filter_loop cs False = cs"
  by (induction cs) (auto simp: is_command_char_def isspace_def)

text \<open>
  Claim C3 as stated fails: this program is well nested and small enough, and yet
  \<open>build_maps\<close> rejects it, at the opener that would be the 1025th on its stack.
\<close>

theorem deep_nesting_rejected:
  "well_nested [] deep_program
   \<and> length deep_program \<le> MAX_CODE_SIZE
   \<and> create_interpreter all_ok deep_program [] = Inl (NestingDepthExceeded 1024)"
proof -
  have w: "well_nested [] deep_program"
    using well_nested_closes [of 1025 "[]" "[]"]
    by (simp add: deep_program_def well_nested_opens)
  have f: "filter_code deep_program = deep_program"
    unfolding filter_code_def
    by (rule filter_loop_commands) (auto simp: deep_program_def is_command_char_def)
  have l: "length deep_program = 2050" by (simp add: deep_program_def)
  have s: "build_scan deep_program 0 [] bm cm = Inl (NestingDepthExceeded 1024)" for bm cm
    using build_scan_deep [of "[]" 1025 "replicate 1025 CHR '']''" 0 bm cm]
    by (simp add: deep_program_def MAX_NESTING_DEPTH_def)
  have "create_interpreter all_ok deep_program [] = Inl (NestingDepthExceeded 1024)"
    by (simp add: create_interpreter_def f l Let_def MAX_CODE_SIZE_def all_ok_def
        init_tape_def INITIAL_TAPE_SIZE_def build_maps_def s)
  then show ?thesis using w l by (simp add: MAX_CODE_SIZE_def)
qed

lemma unwind_append: "unwind zo (xs @ ys) cs = unwind zo ys (unwind zo xs cs)"
  by (simp add: unwind_def)

lemma unwind_Cons:
  "unwind zo (e # es) cs = unwind zo es (cs[unat (zo + scast (logical_index e)) := original_value e])"
  by (simp add: unwind_def)

lemma unwind_Nil [simp]: "unwind zo [] cs = cs"
  by (simp add: unwind_def)

lemma unwind_grown:
  assumes "\<forall>e \<in> set es. unat (zo + scast (logical_index e)) < length cs"
  shows "unwind zo es (cs @ ys) = unwind zo es cs @ ys"
  using assms
proof (induction es arbitrary: cs)
  case Nil
  then show ?case by simp
next
  case (Cons e es)
  then show ?case by (simp add: unwind_Cons list_update_append1)
qed

lemma unwind_overwritten:
  assumes "e \<in> set es" "unat (zo + scast (logical_index e)) = p"
  shows "unwind zo es (cs[p := v]) = unwind zo es cs"
  using assms
proof (induction es arbitrary: cs)
  case Nil
  then show ?case by simp
next
  case (Cons x xs)
  show ?case
  proof (cases "unat (zo + scast (logical_index x)) = p")
    case True
    then show ?thesis by (simp add: unwind_Cons)
  next
    case False
    then have "e \<in> set xs" using Cons.prems by auto
    then have "unwind zo xs (cs[unat (zo + scast (logical_index x)) := original_value x, p := v])
                 = unwind zo xs (cs[unat (zo + scast (logical_index x)) := original_value x])"
      using Cons.prems(2) by (rule Cons.IH)
    then show ?thesis using False by (simp add: unwind_Cons list_update_swap)
  qed
qed

lemma takeWhile_dropWhile_tail:
  assumes "\<forall>x \<in> set ys. \<not> P x"
  shows "takeWhile P (xs @ ys) = takeWhile P xs" and "dropWhile P (xs @ ys) = dropWhile P xs @ ys"
proof -
  have t: "takeWhile P ys = []" using assms by (cases ys) auto
  have d: "dropWhile P ys = ys" using assms by (cases ys) auto
  show "takeWhile P (xs @ ys) = takeWhile P xs" using t by (induction xs) auto
  show "dropWhile P (xs @ ys) = dropWhile P xs @ ys" using d by (induction xs) auto
qed

lemma rollback_rel_start: "rollback_rel i0 (i0\<lparr>pointer_stack_top := k, pointer_stack := ps\<rparr>)"
  unfolding rollback_rel_def
  by (auto intro!: exI [of _ "[]"] exI [of _ 0])

lemma in_block_index:
  "reachable_cell t idx \<Longrightarrow> unat (zero_offset t + scast idx) < length (cells t)"
  by (simp add: reachable_cell_def in_block_def physical_index_def)

lemma rollback_rel_grow:
  assumes rel: "rollback_rel i0 i" and ok: "interp_ok i" and g: "grows (tape i) t1"
  shows "rollback_rel i0 (i\<lparr>tape := t1\<rparr>)"
proof -
  obtain ext z where l: "undo_log i = undo_log i0 @ ext"
    and lv: "\<forall>e \<in> set ext. stack_level e > pointer_stack_top i0"
    and u: "unwind (zero_offset (tape i)) (rev ext) (cells (tape i)) = cells (tape i0) @ replicate z 0"
    and zo: "zero_offset (tape i) = zero_offset (tape i0)"
    using rel unfolding rollback_rel_def by blast
  obtain k where k: "cells t1 = cells (tape i) @ replicate k 0" and zo1: "zero_offset t1 = zero_offset (tape i)"
    using g unfolding grows_def by blast
  have "\<forall>e \<in> set (rev ext). unat (zero_offset (tape i) + scast (logical_index e)) < length (cells (tape i))"
    using ok l by (auto simp: interp_ok_def log_ok_def intro: in_block_index)
  then have "unwind (zero_offset (tape i)) (rev ext) (cells (tape i) @ replicate k 0)
               = (cells (tape i0) @ replicate z 0) @ replicate k 0"
    using u by (simp add: unwind_grown)
  then have "unwind (zero_offset t1) (rev ext) (cells t1) = cells (tape i0) @ replicate (z + k) 0"
    by (simp add: k zo1 replicate_add)
  then show ?thesis unfolding rollback_rel_def using l lv zo zo1 by auto
qed

lemma rollback_rel_fields:
  assumes "rollback_rel i0 i"
  shows "rollback_rel i0 (i\<lparr>pointer_stack := ps\<rparr>)" and "rollback_rel i0 (i\<lparr>output' := out\<rparr>)"
    and "rollback_rel i0 (i\<lparr>input' := inp\<rparr>)" and "rollback_rel i0 (i\<lparr>pointer_stack_top := k\<rparr>)"
  using assms by (auto simp: rollback_rel_def)

lemma rollback_rel_mutate:
  assumes rel: "rollback_rel i0 i" and ok: "interp_ok i" and ok0: "interp_ok i0"
    and deeper: "pointer_stack_top i > pointer_stack_top i0"
    and r: "reachable_cell (tape i) idx"
    and room: "logged (undo_log i) idx (pointer_stack_top i) \<or> \<not> append_fails hp i"
  shows "rollback_rel i0 ((record_entry hp i idx)
                            \<lparr>tape := store (tape i) (physical_index (tape i) idx) v\<rparr>)"
proof -
  let ?zo = "zero_offset (tape i)"
  let ?p = "unat (?zo + scast idx)"
  obtain ext z where l: "undo_log i = undo_log i0 @ ext"
    and lv: "\<forall>e \<in> set ext. stack_level e > pointer_stack_top i0"
    and u: "unwind ?zo (rev ext) (cells (tape i)) = cells (tape i0) @ replicate z 0"
    and zo: "?zo = zero_offset (tape i0)"
    using rel unfolding rollback_rel_def by blast
  have plt: "?p < length (cells (tape i))" using r by (rule in_block_index)
  show ?thesis
  proof (cases "logged (undo_log i) idx (pointer_stack_top i)")
    case True
    then obtain e where e: "e \<in> set (undo_log i)" "logical_index e = idx"
        "pointer_stack_top i \<le> stack_level e"
      by (auto simp: logged_iff)
    have "e \<notin> set (undo_log i0)"
      using e(3) deeper ok0 by (auto simp: interp_ok_def log_ok_def)
    then have "e \<in> set (rev ext)" using e(1) l by simp
    then have "unwind ?zo (rev ext) ((cells (tape i))[?p := v]) = unwind ?zo (rev ext) (cells (tape i))"
      using e(2) by (intro unwind_overwritten [of e]) simp_all
    then show ?thesis
      unfolding rollback_rel_def using True l lv u zo
      by (auto simp: record_entry_def store_def physical_index_def)
  next
    case False
    then have nf: "\<not> append_fails hp i" using room by simp
    have top: "pointer_stack_top i \<noteq> 0" using deeper by simp
    let ?e = "\<lparr>logical_index = idx,
               original_value = cell_at (tape i) (physical_index (tape i) idx),
               stack_level = pointer_stack_top i\<rparr>"
    have rec: "undo_log (record_entry hp i idx) = undo_log i0 @ (ext @ [?e])"
      using False nf top l by (simp add: record_entry_def)
    have "unwind ?zo (rev (ext @ [?e])) ((cells (tape i))[?p := v])
            = unwind ?zo (rev ext) (cells (tape i))"
      using plt by (simp add: unwind_Cons cell_at_def physical_index_def)
    then have "unwind ?zo (rev (ext @ [?e])) ((cells (tape i))[?p := v])
                 = cells (tape i0) @ replicate z 0"
      using u by simp
    moreover have "\<forall>x \<in> set (ext @ [?e]). stack_level x > pointer_stack_top i0"
      using lv deeper by simp
    ultimately show ?thesis
      unfolding rollback_rel_def using rec zo
      by (auto simp: store_def physical_index_def simp del: rev_append)
  qed
qed

lemma rollback_rel_pop:
  assumes rel: "rollback_rel i0 i" and ok: "interp_ok i" and ok0: "interp_ok i0"
    and deeper: "pointer_stack_top i > pointer_stack_top i0"
    and res: "restore_undo_entries hp i = Inr i1"
  shows "rollback_rel i0 i1"
proof -
  let ?zo = "zero_offset (tape i)"
  let ?P = "\<lambda>e. stack_level e = pointer_stack_top i"
  obtain ext z where l: "undo_log i = undo_log i0 @ ext"
    and lv: "\<forall>e \<in> set ext. stack_level e > pointer_stack_top i0"
    and u: "unwind ?zo (rev ext) (cells (tape i)) = cells (tape i0) @ replicate z 0"
    and zo: "?zo = zero_offset (tape i0)"
    using rel unfolding rollback_rel_def by blast
  have i1: "i1 = i\<lparr>undo_log := rev (dropWhile ?P (rev (undo_log i))),
                  tape := (tape i)\<lparr>cells := unwind ?zo (takeWhile ?P (rev (undo_log i)))
                                               (cells (tape i))\<rparr>\<rparr>"
    using res restore_undo_entries_result [OF ok, of hp] by simp
  have old: "\<forall>x \<in> set (rev (undo_log i0)). \<not> ?P x"
    using ok0 deeper by (auto simp: interp_ok_def log_ok_def)
  have rl: "rev (undo_log i) = rev ext @ rev (undo_log i0)" using l by simp
  have t: "takeWhile ?P (rev (undo_log i)) = takeWhile ?P (rev ext)"
    and d: "dropWhile ?P (rev (undo_log i)) = dropWhile ?P (rev ext) @ rev (undo_log i0)"
    unfolding rl using takeWhile_dropWhile_tail [OF old] by simp_all
  let ?ext = "rev (dropWhile ?P (rev ext))"
  have l1: "undo_log i1 = undo_log i0 @ ?ext" by (simp add: i1 d)
  have "set (dropWhile ?P (rev ext)) \<subseteq> set ext" using set_dropWhileD by fastforce
  then have lv1: "\<forall>e \<in> set ?ext. stack_level e > pointer_stack_top i0" using lv by auto
  have "unwind ?zo (dropWhile ?P (rev ext)) (unwind ?zo (takeWhile ?P (rev ext)) (cells (tape i)))
          = unwind ?zo (takeWhile ?P (rev ext) @ dropWhile ?P (rev ext)) (cells (tape i))"
    by (rule unwind_append [symmetric])
  also have "\<dots> = cells (tape i0) @ replicate z 0"
    using u by simp
  finally have u1: "unwind ?zo (rev ?ext) (cells (tape i1)) = cells (tape i0) @ replicate z 0"
    by (simp add: i1 t)
  show ?thesis
    unfolding rollback_rel_def using l1 lv1 u1 zo by (auto simp: i1)
qed

lemma rollback_rel_closed:
  assumes rel: "rollback_rel i0 i" and ok: "interp_ok i"
    and top: "pointer_stack_top i \<le> pointer_stack_top i0"
  shows "undo_log i = undo_log i0 \<and> zero_offset (tape i) = zero_offset (tape i0)
         \<and> (\<exists>z. cells (tape i) = cells (tape i0) @ replicate z 0)"
proof -
  obtain ext z where l: "undo_log i = undo_log i0 @ ext"
    and lv: "\<forall>e \<in> set ext. stack_level e > pointer_stack_top i0"
    and u: "unwind (zero_offset (tape i)) (rev ext) (cells (tape i)) = cells (tape i0) @ replicate z 0"
    and zo: "zero_offset (tape i) = zero_offset (tape i0)"
    using rel unfolding rollback_rel_def by blast
  have "\<forall>e \<in> set ext. stack_level e \<le> pointer_stack_top i"
    using ok l by (auto simp: interp_ok_def log_ok_def)
  then have "ext = []" using lv top by (cases ext) fastforce+
  then show ?thesis using l u zo by auto
qed

lemma append_fails_fields [simp]:
  "append_fails hp (i\<lparr>tape := t\<rparr>) = append_fails hp i"
  "append_fails hp (i\<lparr>input' := inp\<rparr>) = append_fails hp i"
  by (simp_all add: append_fails_def undo_log_count_def)

lemma exec_rollback:
  assumes cok: "config_ok c" and ok0: "interp_ok i0"
    and deeper: "pointer_stack_top (interp c) > pointer_stack_top i0"
    and rel: "rollback_rel i0 (interp c)"
    and room: "command \<in> {CHR ''+'', CHR ''-'', CHR '',''} \<longrightarrow>
                 logged (undo_log (interp c)) (pointer_stack (interp c) ! current_ptr c)
                   (pointer_stack_top (interp c))
                 \<or> \<not> append_fails (heap env) (interp c)"
    and res: "exec env command c = Inr c'"
  shows "rollback_rel i0 (interp c')"
proof -
  have ok: "interp_ok (interp c)" using cok by (simp add: config_ok_def)
  consider (mv) "command = CHR ''>'' \<or> command = CHR ''<''"
    | (mut) "command = CHR ''+'' \<or> command = CHR ''-'' \<or> command = CHR '',''"
    | (out) "command = CHR ''.''"
    | (br) "command = CHR ''['' \<or> command = CHR '']''"
    | (push) "command = CHR ''{''"
    | (pop) "command = CHR ''}''"
    | (other) "command \<notin> set ''><+-.,[]{}''"
    by auto
  then show ?thesis
  proof cases
    case mv
    then obtain d where m: "move_pointer env c d = Inr c'"
      using res by (auto simp: exec_def)
    let ?n = "pointer_stack (interp c) ! current_ptr c + d"
    obtain rc t1 where e: "ensure_tape_capacity (heap env) (tape (interp c)) ?n = (rc, t1)"
      by (cases "ensure_tape_capacity (heap env) (tape (interp c)) ?n") auto
    have g: "grows (tape (interp c)) t1" using ok e by (simp add: ensure_grows interp_ok_def)
    have c': "interp c' = (interp c)\<lparr>tape := t1\<rparr>\<lparr>pointer_stack :=
                 (pointer_stack (interp c))[current_ptr c := ?n]\<rparr>"
      using m e by (auto simp: move_pointer_def Let_def split: if_splits)
    show ?thesis unfolding c'
      by (rule rollback_rel_fields(1)) (rule rollback_rel_grow [OF rel ok g])
  next
    case mut
    then obtain i1 idx phys f i1' where l: "locate env c = Inr (i1, idx, phys)"
      and m: "mutate env c i1' idx phys f = Inr c'"
      and i1': "i1' = i1 \<or> i1' = i1\<lparr>input' := tl (input' i1)\<rparr>"
      using res by (auto simp: exec_def Let_def split: sum.splits)
    note L = locate_Inr [OF ok l]
    have i1: "i1 = (interp c)\<lparr>tape := tape i1\<rparr>" by (rule L(1))
    have rel1: "rollback_rel i0 i1"
      using rollback_rel_grow [OF rel ok L(2)] i1 by simp
    have rel1': "rollback_rel i0 i1'" using i1' rel1 rollback_rel_fields(3) by auto
    have ok': "interp_ok i1'" using i1' L(6) interp_ok_output(2) by auto
    have t: "tape i1' = tape i1" using i1' by auto
    have same: "undo_log i1' = undo_log (interp c)"
      "pointer_stack_top i1' = pointer_stack_top (interp c)"
      "append_fails (heap env) i1' = append_fails (heap env) (interp c)"
      using i1' by (auto simp: arg_cong [OF i1, of undo_log] arg_cong [OF i1, of pointer_stack_top]
          arg_cong [OF i1, of "append_fails (heap env)"])
    have cov': "covered (tape i1') idx" using L(3) t by simp
    have m': "mutate env c i1' idx (physical_index (tape i1') idx) f = Inr c'"
      using m L(5) t by simp
    note M = mutate_Inr [OF ok' cov' m']
    have r: "reachable_cell (tape i1') idx" using M cov' by (simp add: reachable_cell_def)
    have room': "logged (undo_log i1') idx (pointer_stack_top i1') \<or> \<not> append_fails (heap env) i1'"
      using room mut L(4) same by auto
    have d': "pointer_stack_top i1' > pointer_stack_top i0" using deeper same by simp
    show ?thesis
      using rollback_rel_mutate [OF rel1' ok' ok0 d' r room'] M by simp
  next
    case out
    then obtain i1 idx phys where l: "locate env c = Inr (i1, idx, phys)"
      and c': "c' = c\<lparr>interp := i1\<lparr>output' := output' i1 @ [cell_at (tape i1) phys]\<rparr>\<rparr>"
      using res by (auto simp: exec_def split: sum.splits if_splits)
    note L = locate_Inr [OF ok l]
    have rel1: "rollback_rel i0 i1"
      using rollback_rel_grow [OF rel ok L(2)] L(1) by simp
    show ?thesis using rollback_rel_fields(2) [OF rel1] by (simp add: c')
  next
    case br
    then obtain i1 idx phys where l: "locate env c = Inr (i1, idx, phys)"
      and c': "interp c' = i1"
      using res by (auto simp: exec_def jump_def Let_def split: sum.splits if_splits)
    note L = locate_Inr [OF ok l]
    show ?thesis using rollback_rel_grow [OF rel ok L(2)] L(1) c' by simp
  next
    case push
    then have c': "interp c' = (interp c)
                    \<lparr>pointer_stack_top := pointer_stack_top (interp c) + 1\<rparr>
                    \<lparr>pointer_stack := (pointer_stack (interp c))
                        [pointer_stack_top (interp c) + 1 :=
                           pointer_stack (interp c) ! current_ptr c]\<rparr>"
      using res by (auto simp: exec_def Let_def split: if_splits)
    show ?thesis unfolding c'
      by (rule rollback_rel_fields(1)) (rule rollback_rel_fields(4) [OF rel])
  next
    case pop
    then obtain i1 where r: "restore_undo_entries (heap env) (interp c) = Inr i1"
      and c': "interp c' = i1\<lparr>pointer_stack_top := pointer_stack_top i1 - 1\<rparr>"
      using res by (auto simp: exec_def split: sum.splits if_splits)
    show ?thesis unfolding c'
      by (rule rollback_rel_fields(4)) (rule rollback_rel_pop [OF rel ok ok0 deeper r])
  next
    case other
    then show ?thesis using res rel by (auto simp: exec_def)
  qed
qed

lemma run_step_exec:
  assumes "run_step env c = Inr c'"
  obtains c2 where "exec env (code (interp c) ! ip c)
                      (c\<lparr>instruction_count := instruction_count c + 1\<rparr>) = Inr c2"
    and "c' = c2\<lparr>ip := ip c2 + 1\<rparr>"
  using assms by (auto simp: run_step_def Let_def split: sum.splits)

lemma run_step_rollback:
  assumes cok: "config_ok c" and ok0: "interp_ok i0"
    and deeper: "pointer_stack_top (interp c) > pointer_stack_top i0"
    and rel: "rollback_rel i0 (interp c)"
    and room: "\<not> append_fails_now env c"
    and res: "run_step env c = Inr c'"
  shows "rollback_rel i0 (interp c')"
proof -
  let ?c1 = "c\<lparr>instruction_count := instruction_count c + 1\<rparr>"
  obtain c2 where e: "exec env (code (interp c) ! ip c) ?c1 = Inr c2"
    and c': "c' = c2\<lparr>ip := ip c2 + 1\<rparr>"
    using res by (rule run_step_exec)
  have cok1: "config_ok ?c1" using cok by (simp add: config_ok_def)
  have room1: "code (interp c) ! ip c \<in> {CHR ''+'', CHR ''-'', CHR '',''} \<longrightarrow>
                 logged (undo_log (interp ?c1)) (pointer_stack (interp ?c1) ! current_ptr ?c1)
                   (pointer_stack_top (interp ?c1))
                 \<or> \<not> append_fails (heap env) (interp ?c1)"
    using room deeper by (auto simp: append_fails_now_def)
  have "rollback_rel i0 (interp c2)"
    by (rule exec_rollback [OF cok1 ok0 _ _ room1 e]) (use deeper rel in simp_all)
  then show ?thesis by (simp add: c')
qed

lemma within_scope_rollback:
  assumes "within_scope env L n c cn" "no_append_failure env n c"
    and "config_ok c" "interp_ok i0" "L > pointer_stack_top i0"
    and "pointer_stack_top (interp c) \<ge> L" "rollback_rel i0 (interp c)"
  shows "rollback_rel i0 (interp cn) \<and> config_ok cn \<and> pointer_stack_top (interp cn) \<ge> L"
  using assms
proof (induction n arbitrary: c)
  case 0
  then show ?case by simp
next
  case (Suc n)
  obtain c1 where s: "run_step env c = Inr c1" and top1: "pointer_stack_top (interp c1) \<ge> L"
    and w: "within_scope env L n c1 cn"
    using Suc.prems(1) by (auto split: sum.splits)
  have nf: "\<not> append_fails_now env c" and na: "no_append_failure env n c1"
    using Suc.prems(2) s by simp_all
  have deeper: "pointer_stack_top (interp c) > pointer_stack_top i0"
    using Suc.prems(5,6) by simp
  have rel1: "rollback_rel i0 (interp c1)"
    by (rule run_step_rollback [OF Suc.prems(3,4) deeper Suc.prems(7) nf s])
  have ok1: "config_ok c1" using Suc.prems(3) s by (rule run_step_ok)
  show ?case by (rule Suc.IH [OF w na ok1 Suc.prems(4,5) top1 rel1])
qed

lemma restore_keeps_stack:
  assumes "restore_undo_entries hp i = Inr i1"
  shows "pointer_stack i1 = pointer_stack i" and "pointer_stack_top i1 = pointer_stack_top i"
  using assms by (auto simp: restore_undo_entries_def split: sum.splits prod.splits)

lemma exec_keeps_lower:
  assumes cok: "config_ok c" and res: "exec env command c = Inr c'"
    and k: "k < pointer_stack_top (interp c)"
  shows "pointer_stack (interp c') ! k = pointer_stack (interp c) ! k"
proof -
  have ok: "interp_ok (interp c)" and cur: "current_ptr c = pointer_stack_top (interp c)"
    using cok by (simp_all add: config_ok_def)
  consider (mv) "command = CHR ''>'' \<or> command = CHR ''<''"
    | (mut) "command = CHR ''+'' \<or> command = CHR ''-'' \<or> command = CHR '',''"
    | (out) "command = CHR ''.''"
    | (br) "command = CHR ''['' \<or> command = CHR '']''"
    | (push) "command = CHR ''{''"
    | (pop) "command = CHR ''}''"
    | (other) "command \<notin> set ''><+-.,[]{}''"
    by auto
  then show ?thesis
  proof cases
    case mv
    then obtain d where m: "move_pointer env c d = Inr c'"
      using res by (auto simp: exec_def)
    then obtain v where "pointer_stack (interp c') = (pointer_stack (interp c))[current_ptr c := v]"
      by (auto simp: move_pointer_def Let_def split: prod.splits if_splits)
    then show ?thesis using k cur by simp
  next
    case mut
    then obtain i1 idx phys f i1' where l: "locate env c = Inr (i1, idx, phys)"
      and m: "mutate env c i1' idx phys f = Inr c'"
      and i1': "i1' = i1 \<or> i1' = i1\<lparr>input' := tl (input' i1)\<rparr>"
      using res by (auto simp: exec_def Let_def split: sum.splits)
    note L = locate_Inr [OF ok l]
    have ps1: "pointer_stack i1' = pointer_stack (interp c)"
      using i1' arg_cong [OF L(1), of pointer_stack] by auto
    have ok': "interp_ok i1'" using i1' L(6) interp_ok_output(2) by auto
    have t: "tape i1' = tape i1" using i1' by auto
    have m': "mutate env c i1' idx (physical_index (tape i1') idx) f = Inr c'"
      using m L(5) t by simp
    have cov': "covered (tape i1') idx" using L(3) t by simp
    show ?thesis using mutate_Inr [OF ok' cov' m'] ps1 by simp
  next
    case out
    then obtain i1 idx phys where l: "locate env c = Inr (i1, idx, phys)"
      and c': "c' = c\<lparr>interp := i1\<lparr>output' := output' i1 @ [cell_at (tape i1) phys]\<rparr>\<rparr>"
      using res by (auto simp: exec_def split: sum.splits if_splits)
    show ?thesis using arg_cong [OF locate_shape(1) [OF l], of pointer_stack] by (simp add: c')
  next
    case br
    then obtain i1 idx phys where l: "locate env c = Inr (i1, idx, phys)"
      and c': "interp c' = i1"
      using res by (auto simp: exec_def jump_def Let_def split: sum.splits if_splits)
    show ?thesis using arg_cong [OF locate_shape(1) [OF l], of pointer_stack] by (simp add: c')
  next
    case push
    then have "pointer_stack (interp c') = (pointer_stack (interp c))
                  [pointer_stack_top (interp c) + 1 := pointer_stack (interp c) ! current_ptr c]"
      using res by (auto simp: exec_def Let_def split: if_splits)
    then show ?thesis using k by simp
  next
    case pop
    then obtain i1 where r: "restore_undo_entries (heap env) (interp c) = Inr i1"
      and c': "interp c' = i1\<lparr>pointer_stack_top := pointer_stack_top i1 - 1\<rparr>"
      using res by (auto simp: exec_def split: sum.splits if_splits)
    show ?thesis using restore_keeps_stack(1) [OF r] by (simp add: c')
  next
    case other
    then show ?thesis using res by (auto simp: exec_def)
  qed
qed

lemma run_step_keeps_lower:
  assumes cok: "config_ok c" and res: "run_step env c = Inr c'"
    and k: "k < pointer_stack_top (interp c)"
  shows "pointer_stack (interp c') ! k = pointer_stack (interp c) ! k"
proof -
  let ?c1 = "c\<lparr>instruction_count := instruction_count c + 1\<rparr>"
  obtain c2 where e: "exec env (code (interp c) ! ip c) ?c1 = Inr c2"
    and c': "c' = c2\<lparr>ip := ip c2 + 1\<rparr>"
    using res by (rule run_step_exec)
  have cok1: "config_ok ?c1" using cok by (simp add: config_ok_def)
  show ?thesis using exec_keeps_lower [OF cok1 e, of k] k by (simp add: c')
qed

lemma within_scope_keeps:
  assumes "within_scope env L n c cn" "config_ok c" "k < L" "pointer_stack_top (interp c) \<ge> L"
  shows "pointer_stack (interp cn) ! k = pointer_stack (interp c) ! k \<and> config_ok cn
         \<and> pointer_stack_top (interp cn) \<ge> L"
  using assms
proof (induction n arbitrary: c)
  case 0
  then show ?case by simp
next
  case (Suc n)
  obtain c1 where s: "run_step env c = Inr c1" and top1: "pointer_stack_top (interp c1) \<ge> L"
    and w: "within_scope env L n c1 cn"
    using Suc.prems(1) by (auto split: sum.splits)
  have ok1: "config_ok c1" using Suc.prems(2) s by (rule run_step_ok)
  have "pointer_stack (interp c1) ! k = pointer_stack (interp c) ! k"
    using Suc.prems(3,4) by (intro run_step_keeps_lower [OF Suc.prems(2) s]) simp
  then show ?case using Suc.IH [OF w ok1 Suc.prems(3) top1] by simp
qed

lemma open_step:
  assumes "code (interp c0) ! ip c0 = CHR ''{''" "run_step env c0 = Inr c1"
  shows "interp c1 = (interp c0)
           \<lparr>pointer_stack_top := pointer_stack_top (interp c0) + 1,
            pointer_stack := (pointer_stack (interp c0))
              [pointer_stack_top (interp c0) + 1 := pointer_stack (interp c0) ! current_ptr c0]\<rparr>"
    and "pointer_stack_top (interp c0) + 1 < MAX_TEMP_DEPTH"
  using assms by (auto simp: run_step_def exec_def Let_def split: if_splits)

lemma close_step:
  assumes "code (interp cn) ! ip cn = CHR ''}''" "run_step env cn = Inr c'"
  obtains i1 where "restore_undo_entries (heap env) (interp cn) = Inr i1"
    and "interp c' = i1\<lparr>pointer_stack_top := pointer_stack_top (interp cn) - 1\<rparr>"
    and "current_ptr c' = pointer_stack_top (interp cn) - 1"
    and "pointer_stack_top (interp cn) \<noteq> 0"
proof -
  obtain i1 where r: "restore_undo_entries (heap env) (interp cn) = Inr i1"
    and c': "interp c' = i1\<lparr>pointer_stack_top := pointer_stack_top i1 - 1\<rparr>"
      "current_ptr c' = pointer_stack_top i1 - 1" "pointer_stack_top (interp cn) \<noteq> 0"
    using assms by (auto simp: run_step_def exec_def Let_def split: if_splits sum.splits)
  show ?thesis using that [OF r] c' restore_keeps_stack(2) [OF r] by simp
qed

lemma run_for_numeral:
  "run_for env (numeral k) c =
     (if running c then
        case run_step env c of
          Inl e \<Rightarrow> Inl e
        | Inr c' \<Rightarrow> run_for env (pred_numeral k) c'
      else Inr c)"
  by (simp add: numeral_eq_Suc)

lemma within_scope_numeral:
  "within_scope env L (numeral k) c c' \<longleftrightarrow>
     running c \<and>
     (case run_step env c of
        Inl e \<Rightarrow> False
      | Inr c1 \<Rightarrow> pointer_stack_top (interp c1) \<ge> L \<and> within_scope env L (pred_numeral k) c1 c')"
  by (simp add: numeral_eq_Suc)

lemma no_append_failure_numeral:
  "no_append_failure env (numeral k) c \<longleftrightarrow>
     \<not> append_fails_now env c \<and>
     (case run_step env c of
        Inl e \<Rightarrow> True
      | Inr c1 \<Rightarrow> no_append_failure env (pred_numeral k) c1)"
  by (simp add: numeral_eq_Suc)

lemmas trace_defs = run_for_numeral within_scope_numeral no_append_failure_numeral
  restore_undo_entries_def logged_def undo_log_count_def MAX_TEMP_DEPTH_def
  append_fails_now_def append_fails_def MAX_CODE_SIZE_def

lemma create_nested_demo: "create_interpreter all_ok ''+{+>{+<+}+}'' [] = Inr nested_demo"
  by (simp add: create_defs all_ok_def nested_demo_def Let_def)

lemmas demo_defs = demo_state_def demo_states_def demo_cfg_def nested_demo_def fresh_def
  all_ok_def start_def

lemma demo_start: "start nested_demo = demo_state 0"
  by (simp add: demo_defs)

lemma demo_steps:
  "run_step all_ok (demo_state 0) = Inr (demo_state (Suc 0))"
  "run_step all_ok (demo_state (Suc 0)) = Inr (demo_state 2)"
  "run_step all_ok (demo_state 2) = Inr (demo_state 3)"
  "run_step all_ok (demo_state 3) = Inr (demo_state 4)"
  "run_step all_ok (demo_state 4) = Inr (demo_state 5)"
  "run_step all_ok (demo_state 5) = Inr (demo_state 6)"
  "run_step all_ok (demo_state 6) = Inr (demo_state 7)"
  "run_step all_ok (demo_state 7) = Inr (demo_state 8)"
  "run_step all_ok (demo_state 8) = Inr (demo_state 9)"
  "run_step all_ok (demo_state 9) = Inr (demo_state 10)"
  "run_step all_ok (demo_state 10) = Inr (demo_state 11)"
  by (simp_all add: demo_defs eval_defs trace_defs)

lemma demo_running:
  "running (demo_state 0)" "running (demo_state (Suc 0))" "running (demo_state 2)"
  "running (demo_state 3)" "running (demo_state 4)" "running (demo_state 5)"
  "running (demo_state 6)" "running (demo_state 7)" "running (demo_state 8)"
  "running (demo_state 9)" "running (demo_state 10)"
  by (simp_all add: demo_defs running_def code_length_def MAX_INSTRUCTIONS_def)

lemma demo_tops:
  "pointer_stack_top (interp (demo_state 0)) = 0" "pointer_stack_top (interp (demo_state (Suc 0))) = 0"
  "pointer_stack_top (interp (demo_state 2)) = 1" "pointer_stack_top (interp (demo_state 3)) = 1"
  "pointer_stack_top (interp (demo_state 4)) = 1" "pointer_stack_top (interp (demo_state 5)) = 2"
  "pointer_stack_top (interp (demo_state 6)) = 2" "pointer_stack_top (interp (demo_state 7)) = 2"
  "pointer_stack_top (interp (demo_state 8)) = 2" "pointer_stack_top (interp (demo_state 9)) = 1"
  "pointer_stack_top (interp (demo_state 10)) = 1" "pointer_stack_top (interp (demo_state 11)) = 0"
  by (simp_all add: demo_defs)

lemma demo_commands:
  "code (interp (demo_state (Suc 0))) ! ip (demo_state (Suc 0)) = CHR ''{''"
  "code (interp (demo_state 4)) ! ip (demo_state 4) = CHR ''{''"
  "code (interp (demo_state 8)) ! ip (demo_state 8) = CHR ''}''"
  "code (interp (demo_state 10)) ! ip (demo_state 10) = CHR ''}''"
  by (simp_all add: demo_defs)

lemma demo_room:
  "\<not> append_fails_now all_ok (demo_state 2)" "\<not> append_fails_now all_ok (demo_state 3)"
  "\<not> append_fails_now all_ok (demo_state 4)" "\<not> append_fails_now all_ok (demo_state 5)"
  "\<not> append_fails_now all_ok (demo_state 6)" "\<not> append_fails_now all_ok (demo_state 7)"
  "\<not> append_fails_now all_ok (demo_state 8)" "\<not> append_fails_now all_ok (demo_state 9)"
  by (simp_all add: demo_defs append_fails_now_def append_fails_def undo_log_count_def)

lemmas demo_trace = run_for_numeral within_scope_numeral no_append_failure_numeral
  demo_start demo_steps demo_running demo_tops demo_room

text \<open>
  Claim C6.  Take any state an execution reaches in which \<open>{\<close> is executed, and
  any number of turns of the loop after it during which the scope just opened stays
  open.  The stack entry of the enclosing scope holds the same position all the while;
  and when a \<open>}\<close> then closes that scope, the current position is the one the
  enclosing scope had before the \<open>{\<close>, whatever moves were made inside.
\<close>

theorem scope_close_restores_position:
  assumes cr: "create_interpreter env source inp = Inr i"
    and reach: "run_for env m (start i) = Inr c0"
    and opn: "code (interp c0) ! ip c0 = CHR ''{''" "run_step env c0 = Inr c1"
    and body: "within_scope env (pointer_stack_top (interp c1)) n c1 cn"
  shows "pointer_stack (interp cn) ! current_ptr c0 = pointer_stack (interp c0) ! current_ptr c0
       \<and> (code (interp cn) ! ip cn = CHR ''}''
            \<and> pointer_stack_top (interp cn) = pointer_stack_top (interp c1)
            \<and> run_step env cn = Inr c'
          \<longrightarrow> pointer_stack (interp c') ! current_ptr c'
                = pointer_stack (interp c0) ! current_ptr c0
              \<and> pointer_stack_top (interp c') = pointer_stack_top (interp c0))"
proof -
  let ?L0 = "pointer_stack_top (interp c0)"
  have ok0: "config_ok c0"
    using create_interpreter_ok [OF cr] reach by (rule run_for_ok)
  have cur0: "current_ptr c0 = ?L0" using ok0 by (simp add: config_ok_def)
  have ok1: "config_ok c1" using ok0 opn(2) by (rule run_step_ok)
  note O = open_step [OF opn]
  have top1: "pointer_stack_top (interp c1) = ?L0 + 1" by (simp add: O(1))
  have ps1: "pointer_stack (interp c1) ! ?L0 = pointer_stack (interp c0) ! ?L0"
    by (simp add: O(1))
  have K: "pointer_stack (interp cn) ! ?L0 = pointer_stack (interp c1) ! ?L0 \<and> config_ok cn
           \<and> pointer_stack_top (interp cn) \<ge> pointer_stack_top (interp c1)"
    by (rule within_scope_keeps [OF body ok1]) (simp_all add: top1)
  have kept: "pointer_stack (interp cn) ! current_ptr c0 = pointer_stack (interp c0) ! current_ptr c0"
    using K ps1 cur0 by simp
  have closing: "pointer_stack (interp c') ! current_ptr c'
                   = pointer_stack (interp c0) ! current_ptr c0
                 \<and> pointer_stack_top (interp c') = pointer_stack_top (interp c0)"
    if c: "code (interp cn) ! ip cn = CHR ''}''"
      and t: "pointer_stack_top (interp cn) = pointer_stack_top (interp c1)"
      and s: "run_step env cn = Inr c'"
  proof -
    obtain i1 where r: "restore_undo_entries (heap env) (interp cn) = Inr i1"
      and c': "interp c' = i1\<lparr>pointer_stack_top := pointer_stack_top (interp cn) - 1\<rparr>"
        "current_ptr c' = pointer_stack_top (interp cn) - 1"
      using c s by (rule close_step)
    have "pointer_stack (interp c') = pointer_stack (interp cn)"
      using restore_keeps_stack(1) [OF r] by (simp add: c'(1))
    then show ?thesis using kept cur0 by (simp add: c' t top1)
  qed
  show ?thesis using kept closing by blast
qed

theorem scope_close_restores_position_witness:
  "pointer_stack (interp (demo_state 4)) ! current_ptr (demo_state 4) = 1
   \<and> pointer_stack (interp (demo_state 8)) ! current_ptr (demo_state 8) = 0
   \<and> pointer_stack (interp (demo_state 8)) ! current_ptr (demo_state 4) = 1
   \<and> pointer_stack (interp (demo_state 9)) ! current_ptr (demo_state 9) = 1"
proof -
  have r4: "run_for all_ok 4 (start nested_demo) = Inr (demo_state 4)"
    by (simp add: demo_trace)
  have w4: "within_scope all_ok (pointer_stack_top (interp (demo_state 5))) 3
              (demo_state 5) (demo_state 8)"
    by (simp add: demo_trace)
  have p4: "pointer_stack (interp (demo_state 4)) ! current_ptr (demo_state 4) = 1"
    by (simp add: demo_defs)
  have p8: "pointer_stack (interp (demo_state 8)) ! current_ptr (demo_state 8) = 0"
    by (simp add: demo_defs)
  from scope_close_restores_position
         [OF create_nested_demo r4 demo_commands(2) demo_steps(5) w4, of "demo_state 9"]
  show ?thesis
    using p4 p8 demo_commands(3) demo_steps(9) by (simp add: demo_tops)
qed

text \<open>
  Claim C1, as the code has it.  Take any state an execution reaches in which \<open>{\<close>
  is executed, and the turns of the loop from there to the \<open>}\<close> that closes the scope
  just opened.  If in none of these turns the recorder fails to append to the undo log,
  then after that \<open>}\<close> every cell of the tape holds the value it held when the \<open>{\<close>
  was executed, however often it was changed in the scope or in scopes nested in it;
  cells the tape gained meanwhile are zero; and the undo log is again the one of
  that moment, so the entries of the enclosing scopes are untouched and restore
  independently later.
\<close>

theorem scope_close_restores_cells:
  assumes cr: "create_interpreter env source inp = Inr i"
    and reach: "run_for env m (start i) = Inr c0"
    and opn: "code (interp c0) ! ip c0 = CHR ''{''" "run_step env c0 = Inr c1"
    and body: "within_scope env (pointer_stack_top (interp c1)) n c1 cn"
    and room: "no_append_failure env n c1"
    and cls: "code (interp cn) ! ip cn = CHR ''}''"
      "pointer_stack_top (interp cn) = pointer_stack_top (interp c1)"
      "run_step env cn = Inr c'"
  shows "(\<forall>idx. in_block (tape (interp c0)) (physical_index (tape (interp c0)) idx) \<longrightarrow>
            cell_at (tape (interp c')) (physical_index (tape (interp c')) idx)
              = cell_at (tape (interp c0)) (physical_index (tape (interp c0)) idx))
       \<and> (\<exists>z. cells (tape (interp c')) = cells (tape (interp c0)) @ replicate z 0)
       \<and> zero_offset (tape (interp c')) = zero_offset (tape (interp c0))
       \<and> undo_log (interp c') = undo_log (interp c0)
       \<and> pointer_stack_top (interp c') = pointer_stack_top (interp c0)"
proof -
  let ?i0 = "interp c0"
  let ?L0 = "pointer_stack_top ?i0"
  have ok0: "config_ok c0"
    using create_interpreter_ok [OF cr] reach by (rule run_for_ok)
  have iok0: "interp_ok ?i0" using ok0 by (simp add: config_ok_def)
  have ok1: "config_ok c1" using ok0 opn(2) by (rule run_step_ok)
  note O = open_step [OF opn]
  have top1: "pointer_stack_top (interp c1) = ?L0 + 1" by (simp add: O(1))
  have rel1: "rollback_rel ?i0 (interp c1)"
    unfolding O(1) by (rule rollback_rel_start)
  have W: "rollback_rel ?i0 (interp cn) \<and> config_ok cn
           \<and> pointer_stack_top (interp cn) \<ge> pointer_stack_top (interp c1)"
    by (rule within_scope_rollback [OF body room ok1 iok0 _ _ rel1]) (simp_all add: top1)
  have okn: "config_ok cn" and reln: "rollback_rel ?i0 (interp cn)" using W by simp_all
  have deeper: "pointer_stack_top (interp cn) > ?L0" using cls(2) top1 by simp
  have nf: "\<not> append_fails_now env cn" using cls(1) by (simp add: append_fails_now_def)
  have rel': "rollback_rel ?i0 (interp c')"
    by (rule run_step_rollback [OF okn iok0 deeper reln nf cls(3)])
  have ok': "interp_ok (interp c')"
    using run_step_ok [OF okn cls(3)] by (simp add: config_ok_def)
  obtain i1 where "interp c' = i1\<lparr>pointer_stack_top := pointer_stack_top (interp cn) - 1\<rparr>"
    using cls(1,3) by (rule close_step)
  then have top': "pointer_stack_top (interp c') = ?L0" using cls(2) top1 by simp
  have C: "undo_log (interp c') = undo_log ?i0
           \<and> zero_offset (tape (interp c')) = zero_offset (tape ?i0)
           \<and> (\<exists>z. cells (tape (interp c')) = cells (tape ?i0) @ replicate z 0)"
    by (rule rollback_rel_closed [OF rel' ok']) (simp add: top')
  then obtain z where z: "cells (tape (interp c')) = cells (tape ?i0) @ replicate z 0"
    by blast
  have "cell_at (tape (interp c')) (physical_index (tape (interp c')) idx)
          = cell_at (tape ?i0) (physical_index (tape ?i0) idx)"
    if "in_block (tape ?i0) (physical_index (tape ?i0) idx)" for idx
    using that C z by (simp add: cell_at_def physical_index_def in_block_def nth_append)
  then show ?thesis using C top' by blast
qed

theorem scope_close_restores_cells_witness:
  "cells (tape (interp (demo_state 4))) = (replicate 30000 0)[15000 := 2]
   \<and> cells (tape (interp (demo_state 8))) = (replicate 30000 0)[15000 := 2, 15001 := 1, 15000 := 3]
   \<and> cells (tape (interp (demo_state 9))) = cells (tape (interp (demo_state 4)))
   \<and> undo_log (interp (demo_state 9)) = undo_log (interp (demo_state 4))
   \<and> cells (tape (interp (demo_state (Suc 0)))) = (replicate 30000 0)[15000 := 1]
   \<and> cells (tape (interp (demo_state 11))) = cells (tape (interp (demo_state (Suc 0))))
   \<and> undo_log (interp (demo_state 11)) = []"
proof -
  have r1: "run_for all_ok (Suc 0) (start nested_demo) = Inr (demo_state (Suc 0))"
    by (simp add: demo_trace)
  have w1: "within_scope all_ok (pointer_stack_top (interp (demo_state 2))) 8
              (demo_state 2) (demo_state 10)"
    by (simp add: demo_trace)
  have n1: "no_append_failure all_ok 8 (demo_state 2)"
    by (simp add: demo_trace)
  have t1: "pointer_stack_top (interp (demo_state 10)) = pointer_stack_top (interp (demo_state 2))"
    by (simp add: demo_tops)
  have r4: "run_for all_ok 4 (start nested_demo) = Inr (demo_state 4)"
    by (simp add: demo_trace)
  have w4: "within_scope all_ok (pointer_stack_top (interp (demo_state 5))) 3
              (demo_state 5) (demo_state 8)"
    by (simp add: demo_trace)
  have n4: "no_append_failure all_ok 3 (demo_state 5)"
    by (simp add: demo_trace)
  have t4: "pointer_stack_top (interp (demo_state 8)) = pointer_stack_top (interp (demo_state 5))"
    by (simp add: demo_tops)
  have l1: "length (cells (tape (interp (demo_state 11)))) = length (cells (tape (interp (demo_state (Suc 0)))))"
    and l4: "length (cells (tape (interp (demo_state 9)))) = length (cells (tape (interp (demo_state 4))))"
    and e: "cells (tape (interp (demo_state 4))) = (replicate 30000 0)[15000 := 2]"
      "cells (tape (interp (demo_state 8))) = (replicate 30000 0)[15000 := 2, 15001 := 1, 15000 := 3]"
      "cells (tape (interp (demo_state (Suc 0)))) = (replicate 30000 0)[15000 := 1]"
      "undo_log (interp (demo_state (Suc 0))) = []"
    by (simp_all add: demo_defs)
  from scope_close_restores_cells
         [OF create_nested_demo r1 demo_commands(1) demo_steps(2) w1 n1 demo_commands(4) t1
             demo_steps(11)]
  have outer: "cells (tape (interp (demo_state 11))) = cells (tape (interp (demo_state (Suc 0))))"
    "undo_log (interp (demo_state 11)) = undo_log (interp (demo_state (Suc 0)))"
    using l1 by auto
  from scope_close_restores_cells
         [OF create_nested_demo r4 demo_commands(2) demo_steps(5) w4 n4 demo_commands(3) t4
             demo_steps(9)]
  have inner: "cells (tape (interp (demo_state 9))) = cells (tape (interp (demo_state 4)))"
    "undo_log (interp (demo_state 9)) = undo_log (interp (demo_state 4))"
    using l4 by auto
  show ?thesis using outer inner e by simp
qed

lemma create_seventeen:
  "create_interpreter tight_heap seventeen_cells [] = Inr seventeen_demo"
  by (simp add: create_defs tight_heap_def seventeen_demo_def seventeen_cells_def Let_def)

lemma reach_seventeen_full:
  "run_for tight_heap 33 (start seventeen_demo) = Inr seventeen_full"
  by (simp add: seventeen_full_def start_def seventeen_demo_def seventeen_cells_def fresh_def
      tight_heap_def eval_defs trace_defs)

lemma run_seventeen:
  "\<exists>i'. run tight_heap seventeen_demo = (None, i')
        \<and> cell_at (tape i') (physical_index (tape i') 16) = 1"
proof -
  have "run_loop tight_heap (start seventeen_demo) = run_loop tight_heap seventeen_full"
    using reach_seventeen_full by (rule run_for_loop)
  then show ?thesis
    apply (simp add: run_def)
    apply (simp add: seventeen_full_def seventeen_demo_def seventeen_cells_def fresh_def
        tight_heap_def run_loop.simps eval_defs trace_defs cleanup.simps)
    done
qed

text \<open>
  Claim C1 as stated fails when the recorder cannot append.  In this run the log cannot
  grow beyond 16 entries: the scope opened by the first instruction increments cells
  0 to 16, the closing \<open>}\<close> is executed and the run succeeds, and cell 16, zero when
  the scope was opened, still holds 1 afterwards.
\<close>

theorem rollback_lost_when_log_cannot_grow:
  "create_interpreter tight_heap seventeen_cells [] = Inr seventeen_demo
   \<and> code seventeen_demo ! 0 = CHR ''{''
   \<and> brace_map seventeen_demo ! 0 = 34
   \<and> cell_at (tape seventeen_demo) (physical_index (tape seventeen_demo) 16) = 0
   \<and> fst (run tight_heap seventeen_demo) = None
   \<and> cell_at (tape (snd (run tight_heap seventeen_demo)))
        (physical_index (tape (snd (run tight_heap seventeen_demo))) 16) = 1"
proof -
  obtain i' where r: "run tight_heap seventeen_demo = (None, i')"
    and c: "cell_at (tape i') (physical_index (tape i') 16) = 1"
    using run_seventeen by blast
  have "code seventeen_demo ! 0 = CHR ''{''" "brace_map seventeen_demo ! 0 = 34"
    "cell_at (tape seventeen_demo) (physical_index (tape seventeen_demo) 16) = 0"
    by (simp_all add: seventeen_demo_def seventeen_cells_def fresh_def cell_at_def
        physical_index_def)
  then show ?thesis using create_seventeen r c by simp
qed

lemma log_undo_entry_record:
  assumes "tape_ok (tape i)" "covered (tape i) idx"
    and "in_block (tape i) (physical_index (tape i) idx)"
  shows "log_undo_entry hp i idx = Inr (record_entry hp i idx)"
  using log_undo_entry_result [OF assms] by (simp add: record_entry_def)

lemma logged_at_level:
  assumes "interp_ok i"
  shows "logged (undo_log i) idx (pointer_stack_top i)
         \<longleftrightarrow> (\<exists>e \<in> set (undo_log i). logical_index e = idx
                                       \<and> stack_level e = pointer_stack_top i)"
  using assms by (fastforce simp: logged_iff interp_ok_def log_ok_def)

text \<open>
  Claim C5, as the code has it.  In every state an execution reaches, the undo log
  holds at most one entry for each pair of logical index and level.  Called there for
  a cell whose capacity is ensured, \<open>log_undo_entry\<close> appends nothing when the log
  already has an entry for this index at the current level, and nothing either in the
  root scope or when the log is full and cannot grow; in every other case it
  appends exactly one entry, with the cell's present value and the current level.  A
  second call right after the first appends nothing.
\<close>

theorem first_write_capture:
  assumes cr: "create_interpreter env source inp = Inr i"
    and reach: "run_for env m (start i) = Inr c"
    and cov: "covered (tape (interp c)) idx"
    and blk: "in_block (tape (interp c)) (physical_index (tape (interp c)) idx)"
  shows "distinct (map (\<lambda>e. (logical_index e, stack_level e)) (undo_log (interp c)))
       \<and> (\<exists>i'. log_undo_entry (heap env) (interp c) idx = Inr i'
             \<and> undo_log i' =
                 (if (\<exists>e \<in> set (undo_log (interp c)).
                        logical_index e = idx \<and> stack_level e = pointer_stack_top (interp c))
                     \<or> pointer_stack_top (interp c) = 0
                     \<or> append_fails (heap env) (interp c)
                  then undo_log (interp c)
                  else undo_log (interp c) @
                         [\<lparr>logical_index = idx,
                           original_value = cell_at (tape (interp c))
                                              (physical_index (tape (interp c)) idx),
                           stack_level = pointer_stack_top (interp c)\<rparr>])
             \<and> log_undo_entry (heap env) i' idx = Inr i')"
proof -
  let ?i = "interp c"
  let ?i' = "record_entry (heap env) ?i idx"
  have ok: "interp_ok ?i"
    using run_for_ok [OF create_interpreter_ok [OF cr] reach] by (simp add: config_ok_def)
  have tok: "tape_ok (tape ?i)" using ok by (simp add: interp_ok_def)
  have d: "distinct (map (\<lambda>e. (logical_index e, stack_level e)) (undo_log ?i))"
    using ok by (simp add: interp_ok_def log_ok_def)
  have first: "log_undo_entry (heap env) ?i idx = Inr ?i'"
    by (rule log_undo_entry_record [OF tok cov blk])
  have lg: "undo_log ?i' =
      (if (\<exists>e \<in> set (undo_log ?i). logical_index e = idx \<and> stack_level e = pointer_stack_top ?i)
          \<or> pointer_stack_top ?i = 0 \<or> append_fails (heap env) ?i
       then undo_log ?i
       else undo_log ?i @
              [\<lparr>logical_index = idx,
                original_value = cell_at (tape ?i) (physical_index (tape ?i) idx),
                stack_level = pointer_stack_top ?i\<rparr>])"
    using logged_at_level [OF ok, of idx] by (simp add: record_entry_def)
  have r: "reachable_cell (tape ?i) idx" using cov blk by (simp add: reachable_cell_def)
  have tok': "tape_ok (tape ?i')" and cov': "covered (tape ?i') idx"
    and blk': "in_block (tape ?i') (physical_index (tape ?i') idx)"
    using tok cov blk by simp_all
  have again: "record_entry (heap env) ?i' idx = ?i'"
  proof (cases "pointer_stack_top ?i = 0 \<or> logged (undo_log ?i) idx (pointer_stack_top ?i)
                  \<or> append_fails (heap env) ?i")
    case True
    then show ?thesis by (simp add: record_entry_def)
  next
    case False
    then have "logged (undo_log ?i') idx (pointer_stack_top ?i')"
      by (simp add: record_entry_def logged_iff)
    then show ?thesis by (subst record_entry_def) simp
  qed
  have "log_undo_entry (heap env) ?i' idx = Inr (record_entry (heap env) ?i' idx)"
    by (rule log_undo_entry_record [OF tok' cov' blk'])
  then have second: "log_undo_entry (heap env) ?i' idx = Inr ?i'"
    by (simp only: again)
  show ?thesis using d first lg second by blast
qed

text \<open>
  Claim C5 as stated fails in the root scope: at the start of the program \<open>+\<close> the
  log has no entry for cell 0, and \<open>log_undo_entry\<close> called for it appends none.
\<close>

theorem no_entry_in_root_scope:
  "create_interpreter all_ok ''+'' [] = Inr root_demo
   \<and> pointer_stack_top (interp (start root_demo)) = 0
   \<and> undo_log (interp (start root_demo)) = []
   \<and> log_undo_entry (heap all_ok) (interp (start root_demo)) 0 = Inr (interp (start root_demo))"
  by (simp add: create_defs all_ok_def root_demo_def Let_def start_def log_undo_entry_def)

theorem first_write_capture_witness:
  "(\<exists>i'. log_undo_entry (heap all_ok) (interp (demo_state 2)) 0 = Inr i'
         \<and> undo_log i' = [\<lparr>logical_index = 0, original_value = 1, stack_level = 1\<rparr>]
         \<and> log_undo_entry (heap all_ok) i' 0 = Inr i')
   \<and> (\<exists>i'. log_undo_entry (heap all_ok) (interp (demo_state 3)) 0 = Inr i'
         \<and> undo_log i' = undo_log (interp (demo_state 3)))
   \<and> distinct (map (\<lambda>e. (logical_index e, stack_level e)) (undo_log (interp (demo_state 8))))"
proof -
  have r2: "run_for all_ok 2 (start nested_demo) = Inr (demo_state 2)"
    and r3: "run_for all_ok 3 (start nested_demo) = Inr (demo_state 3)"
    and r8: "run_for all_ok 8 (start nested_demo) = Inr (demo_state 8)"
    by (simp_all add: demo_trace)
  have c: "covered (tape (interp (demo_state 2))) 0" "covered (tape (interp (demo_state 3))) 0"
    "covered (tape (interp (demo_state 8))) 0"
    "in_block (tape (interp (demo_state 2))) (physical_index (tape (interp (demo_state 2))) 0)"
    "in_block (tape (interp (demo_state 3))) (physical_index (tape (interp (demo_state 3))) 0)"
    "in_block (tape (interp (demo_state 8))) (physical_index (tape (interp (demo_state 8))) 0)"
    by (simp_all add: demo_defs covered_def in_block_def physical_index_def SIZE_MAX_def)
  have v: "undo_log (interp (demo_state 2)) = []"
    "undo_log (interp (demo_state 3)) = [\<lparr>logical_index = 0, original_value = 1, stack_level = 1\<rparr>]"
    "pointer_stack_top (interp (demo_state 2)) = 1" "pointer_stack_top (interp (demo_state 3)) = 1"
    "\<not> append_fails (heap all_ok) (interp (demo_state 2))"
    "cell_at (tape (interp (demo_state 2))) (physical_index (tape (interp (demo_state 2))) 0) = 1"
    by (simp_all add: demo_defs append_fails_def undo_log_count_def cell_at_def physical_index_def)
  from first_write_capture [OF create_nested_demo r2 c(1) c(4)]
  have a: "\<exists>i'. log_undo_entry (heap all_ok) (interp (demo_state 2)) 0 = Inr i'
         \<and> undo_log i' = [\<lparr>logical_index = 0, original_value = 1, stack_level = 1\<rparr>]
         \<and> log_undo_entry (heap all_ok) i' 0 = Inr i'"
    by (simp add: v)
  from first_write_capture [OF create_nested_demo r3 c(2) c(5)]
  have b: "\<exists>i'. log_undo_entry (heap all_ok) (interp (demo_state 3)) 0 = Inr i'
         \<and> undo_log i' = undo_log (interp (demo_state 3))"
    by (auto simp: v)
  from first_write_capture [OF create_nested_demo r8 c(3) c(6)]
  have d: "distinct (map (\<lambda>e. (logical_index e, stack_level e)) (undo_log (interp (demo_state 8))))"
    by blast
  show ?thesis using a b d by blast
qed

lemma scast_inj: "(scast (a :: cint) :: size_t) = scast b \<Longrightarrow> a = b"
proof -
  assume h: "(scast a :: size_t) = scast b"
  have "is_up (scast :: cint \<Rightarrow> size_t)" by (simp add: is_up)
  then have "\<And>w :: cint. (scast (scast w :: size_t) :: cint) = w"
    by (rule scast_up_scast_id)
  then show ?thesis using h by metis
qed

lemma physical_inj:
  "unat (zo + scast (a :: cint) :: size_t) = unat (zo + scast b) \<Longrightarrow> a = b"
proof -
  assume "unat (zo + scast a) = unat (zo + scast b)"
  then have "zo + scast a = zo + scast b" by (rule unsigned_word_eqI)
  then have "(scast a :: size_t) = scast b" by simp
  then show ?thesis by (rule scast_inj)
qed

lemma unwind_untouched:
  assumes "\<forall>e \<in> set es. unat (zo + scast (logical_index e)) \<noteq> p"
  shows "unwind zo es cs ! p = cs ! p"
  using assms by (induction es arbitrary: cs) (simp_all add: unwind_Cons)

lemma mutate_silent:
  assumes ok: "interp_ok i1" and cov: "covered (tape i1) idx"
    and blk: "in_block (tape i1) (physical_index (tape i1) idx)"
    and af: "append_fails (heap env) i1"
  shows "mutate env c i1 idx (physical_index (tape i1) idx) f =
           Inr (c\<lparr>interp := i1\<lparr>tape := store (tape i1) (physical_index (tape i1) idx)
                                (f (cell_at (tape i1) (physical_index (tape i1) idx)))\<rparr>\<rparr>)"
proof -
  have "record_entry (heap env) i1 idx = i1" using af by (simp add: record_entry_def)
  then show ?thesis using mutate_result [OF ok cov blk, of env c f] by simp
qed

lemma restore_keeps_unlogged:
  assumes iok: "interp_ok i" and nl: "\<not> logged (undo_log i) idx (pointer_stack_top i)"
  shows "\<exists>i''. restore_undo_entries hp i = Inr i''
           \<and> cell_at (tape i'') (physical_index (tape i'') idx)
               = cell_at (tape i) (physical_index (tape i) idx)"
proof -
  let ?P = "\<lambda>e. stack_level e = pointer_stack_top i"
  let ?zo = "zero_offset (tape i)"
  let ?i'' = "i\<lparr>undo_log := rev (dropWhile ?P (rev (undo_log i))),
                tape := (tape i)\<lparr>cells := unwind ?zo (takeWhile ?P (rev (undo_log i)))
                                            (cells (tape i))\<rparr>\<rparr>"
  have res: "restore_undo_entries hp i = Inr ?i''"
    by (rule restore_undo_entries_result [OF iok])
  have other: "\<forall>e \<in> set (takeWhile ?P (rev (undo_log i))).
                 unat (?zo + scast (logical_index e)) \<noteq> unat (?zo + scast idx)"
  proof
    fix e assume e: "e \<in> set (takeWhile ?P (rev (undo_log i)))"
    then have "e \<in> set (undo_log i)" "stack_level e = pointer_stack_top i"
      using set_takeWhileD [OF e] by auto
    then have "logical_index e \<noteq> idx" using nl by (auto simp: logged_iff)
    then show "unat (?zo + scast (logical_index e)) \<noteq> unat (?zo + scast idx)"
      using physical_inj by blast
  qed
  have "cell_at (tape ?i'') (physical_index (tape ?i'') idx)
          = cell_at (tape i) (physical_index (tape i) idx)"
    using unwind_untouched [OF other] by (simp add: cell_at_def physical_index_def)
  then show ?thesis using res by blast
qed

lemma silent_step:
  assumes cok: "config_ok c" and loc: "locate env c = Inr (i1, idx1, phys)"
    and blk: "in_block (tape i1) phys" and fails: "append_fails_now env c"
    and i1': "i1' = i1 \<or> i1' = i1\<lparr>input' := tl (input' i1)\<rparr>"
    and ex: "exec env (code (interp c) ! ip c) (c\<lparr>instruction_count := instruction_count c + 1\<rparr>)
               = mutate env (c\<lparr>instruction_count := instruction_count c + 1\<rparr>) i1' idx1 phys f"
  shows "\<exists>c' i''. run_step env c = Inr c' \<and> ip c' = ip c + 1
           \<and> undo_log (interp c') = undo_log (interp c)
           \<and> current_cell c' = f (cell_at (tape i1) phys)
           \<and> restore_undo_entries (heap env) (interp c') = Inr i''
           \<and> cell_at (tape i'') (physical_index (tape i'') idx1) = current_cell c'"
proof -
  let ?c1 = "c\<lparr>instruction_count := instruction_count c + 1\<rparr>"
  let ?v = "f (cell_at (tape i1) phys)"
  have iok: "interp_ok (interp c)" using cok by (simp add: config_ok_def)
  note L = locate_Inr [OF iok loc]
  have same: "pointer_stack i1 = pointer_stack (interp c)"
    "undo_log i1 = undo_log (interp c)" "pointer_stack_top i1 = pointer_stack_top (interp c)"
    "append_fails (heap env) i1 = append_fails (heap env) (interp c)"
    using arg_cong [OF L(1), of pointer_stack]
      arg_cong [OF L(1), of undo_log] arg_cong [OF L(1), of pointer_stack_top]
      arg_cong [OF L(1), of "append_fails (heap env)"]
    by (simp_all add: append_fails_def undo_log_count_def)
  have same': "pointer_stack i1' = pointer_stack (interp c)"
    "undo_log i1' = undo_log (interp c)" "pointer_stack_top i1' = pointer_stack_top (interp c)"
    "append_fails (heap env) i1' = append_fails (heap env) (interp c)" "tape i1' = tape i1"
    using i1' same by (auto simp: append_fails_def undo_log_count_def)
  have ok': "interp_ok i1'" using i1' L(6) interp_ok_output(2) [OF L(6)] by auto
  have af: "append_fails (heap env) i1'" using fails same'(4) by (simp add: append_fails_now_def)
  have nl: "\<not> logged (undo_log (interp c)) idx1 (pointer_stack_top (interp c))"
    using fails L(4) by (simp add: append_fails_now_def)
  have m: "mutate env ?c1 i1' idx1 phys f =
             Inr (?c1\<lparr>interp := i1'\<lparr>tape := store (tape i1) phys ?v\<rparr>\<rparr>)"
    using mutate_silent [OF ok', of idx1 env ?c1 f] L(3,5) blk af same'(5) by simp
  let ?c' = "?c1\<lparr>interp := i1'\<lparr>tape := store (tape i1) phys ?v\<rparr>, ip := ip c + 1\<rparr>"
  have step: "run_step env c = Inr ?c'"
    using ex m by (simp add: run_step_def Let_def)
  have cell: "current_cell ?c' = ?v"
    using blk L(4,5) same'(1)
    by (simp add: current_cell_def store_def cell_at_def physical_index_def in_block_def)
  have lg: "undo_log (interp ?c') = undo_log (interp c)" using same'(2) by simp
  have cok': "config_ok ?c'" using cok step by (rule run_step_ok)
  then have iok': "interp_ok (interp ?c')" by (simp add: config_ok_def)
  have nl': "\<not> logged (undo_log (interp ?c')) idx1 (pointer_stack_top (interp ?c'))"
    using nl same'(2,3) by simp
  obtain i'' where r: "restore_undo_entries (heap env) (interp ?c') = Inr i''"
    and k: "cell_at (tape i'') (physical_index (tape i'') idx1)
              = cell_at (tape (interp ?c')) (physical_index (tape (interp ?c')) idx1)"
    using restore_keeps_unlogged [OF iok' nl'] by blast
  have "cell_at (tape (interp ?c')) (physical_index (tape (interp ?c')) idx1) = current_cell ?c'"
    using L(4) same'(1) by (simp add: current_cell_def)
  then have kept: "cell_at (tape i'') (physical_index (tape i'') idx1) = current_cell ?c'"
    using k by simp
  show ?thesis
    apply (rule exI [of _ ?c'])
    apply (rule exI [of _ i''])
    using step lg cell r kept by simp
qed

text \<open>
  Claim C4.  When \<open>log_undo_entry\<close> is called above the root scope for a cell without
  an entry at this level and cannot append (the log is full and would pass its cap of
  \<open>4 * MAX_CODE_SIZE\<close> entries, or its reallocation is refused, or the tape capacity
  cannot be ensured inside the recorder), it returns normally and the log is as
  before.  In \<open>run\<close>, where the first two causes can arise, the instruction \<open>+\<close>, \<open>-\<close>
  or \<open>,\<close> then still changes the cell and the loop goes on; and restoring the
  current scope, as \<open>}\<close> would, leaves the cell at its new value.
\<close>

theorem undo_log_exhaustion_is_silent:
  "(pointer_stack_top i \<noteq> 0 \<and> \<not> logged (undo_log i) idx (pointer_stack_top i)
      \<and> (append_fails hp i \<or> fst (ensure_tape_capacity hp (tape i) idx) \<noteq> 0)
    \<longrightarrow> (\<exists>i'. log_undo_entry hp i idx = Inr i' \<and> undo_log i' = undo_log i))
   \<and> (config_ok c \<and> locate env c = Inr (i1, idx1, phys) \<and> in_block (tape i1) phys
        \<and> append_fails_now env c
      \<longrightarrow> (\<exists>c' i''. run_step env c = Inr c' \<and> ip c' = ip c + 1
             \<and> undo_log (interp c') = undo_log (interp c)
             \<and> current_cell c' =
                  (if code (interp c) ! ip c = CHR ''+'' then cell_at (tape i1) phys + 1
                   else if code (interp c) ! ip c = CHR ''-'' then cell_at (tape i1) phys - 1
                   else (case input' (interp c) of [] \<Rightarrow> 0 | b # bs \<Rightarrow> b))
             \<and> restore_undo_entries (heap env) (interp c') = Inr i''
             \<and> cell_at (tape i'') (physical_index (tape i'') idx1) = current_cell c'))"
proof (intro conjI impI)
  assume a: "pointer_stack_top i \<noteq> 0 \<and> \<not> logged (undo_log i) idx (pointer_stack_top i)
      \<and> (append_fails hp i \<or> fst (ensure_tape_capacity hp (tape i) idx) \<noteq> 0)"
  show "\<exists>i'. log_undo_entry hp i idx = Inr i' \<and> undo_log i' = undo_log i"
  proof (cases "append_fails hp i")
    case True
    then show ?thesis using a
      by (auto simp: log_undo_entry_def append_fails_def Let_def)
  next
    case False
    then have "fst (ensure_tape_capacity hp (tape i) idx) \<noteq> 0" using a by simp
    then show ?thesis using a False
      by (auto simp: log_undo_entry_def append_fails_def Let_def split: prod.splits)
  qed
next
  assume b: "config_ok c \<and> locate env c = Inr (i1, idx1, phys) \<and> in_block (tape i1) phys
        \<and> append_fails_now env c"
  let ?cmd = "code (interp c) ! ip c"
  let ?c1 = "c\<lparr>instruction_count := instruction_count c + 1\<rparr>"
  have cok: "config_ok c"
    and loc: "locate env c = Inr (i1, idx1, phys)" and blk: "in_block (tape i1) phys"
    and fails: "append_fails_now env c"
    using b by simp_all
  have cmd: "?cmd = CHR ''+'' \<or> ?cmd = CHR ''-'' \<or> ?cmd = CHR '',''"
    using fails by (simp add: append_fails_now_def)
  have iok: "interp_ok (interp c)" using cok by (simp add: config_ok_def)
  have inp: "input' i1 = input' (interp c)"
    using arg_cong [OF locate_Inr(1) [OF iok loc], of input'] by simp
  have "locate env ?c1 = locate env c"
    by (auto simp: locate_def Let_def split: prod.splits)
  then have loc1: "locate env ?c1 = Inr (i1, idx1, phys)" using loc by simp
  from cmd show "\<exists>c' i''. run_step env c = Inr c' \<and> ip c' = ip c + 1
             \<and> undo_log (interp c') = undo_log (interp c)
             \<and> current_cell c' =
                  (if ?cmd = CHR ''+'' then cell_at (tape i1) phys + 1
                   else if ?cmd = CHR ''-'' then cell_at (tape i1) phys - 1
                   else (case input' (interp c) of [] \<Rightarrow> 0 | b # bs \<Rightarrow> b))
             \<and> restore_undo_entries (heap env) (interp c') = Inr i''
             \<and> cell_at (tape i'') (physical_index (tape i'') idx1) = current_cell c'"
  proof (elim disjE)
    assume p: "?cmd = CHR ''+''"
    have "exec env ?cmd ?c1 = mutate env ?c1 i1 idx1 phys (\<lambda>v. v + 1)"
      using p loc1 by (simp add: exec_def)
    from silent_step [OF cok loc blk fails _ this] show ?thesis using p by simp
  next
    assume p: "?cmd = CHR ''-''"
    have "exec env ?cmd ?c1 = mutate env ?c1 i1 idx1 phys (\<lambda>v. v - 1)"
      using p loc1 by (simp add: exec_def)
    from silent_step [OF cok loc blk fails _ this] show ?thesis using p by simp
  next
    assume p: "?cmd = CHR '',''"
    have "exec env ?cmd ?c1 = mutate env ?c1 (i1\<lparr>input' := tl (input' i1)\<rparr>) idx1 phys
             (\<lambda>v. case input' (interp c) of [] \<Rightarrow> 0 | b # bs \<Rightarrow> b)"
      using p loc1 inp by (simp add: exec_def Let_def)
    from silent_step [OF cok loc blk fails _ this] show ?thesis using p by simp
  qed
qed

theorem undo_log_exhaustion_is_silent_witness:
  "create_interpreter tight_heap seventeen_cells [] = Inr seventeen_demo
   \<and> run_for tight_heap 33 (start seventeen_demo) = Inr seventeen_full
   \<and> length (undo_log (interp seventeen_full)) = 16
   \<and> (\<exists>i'. log_undo_entry (heap tight_heap) (interp seventeen_full) 16 = Inr i'
          \<and> undo_log i' = undo_log (interp seventeen_full))
   \<and> (\<exists>c' i''. run_step tight_heap seventeen_full = Inr c' \<and> ip c' = 34
          \<and> undo_log (interp c') = undo_log (interp seventeen_full)
          \<and> current_cell c' = 1
          \<and> restore_undo_entries (heap tight_heap) (interp c') = Inr i''
          \<and> cell_at (tape i'') (physical_index (tape i'') 16) = 1)"
proof -
  have cok: "config_ok seventeen_full"
    using run_for_ok [OF create_interpreter_ok [OF create_seventeen] reach_seventeen_full] .
  have loc: "locate tight_heap seventeen_full = Inr (interp seventeen_full, 16, 15016)"
    by (simp add: seventeen_full_def seventeen_demo_def fresh_def tight_heap_def eval_defs)
  have blk: "in_block (tape (interp seventeen_full)) 15016"
    by (simp add: seventeen_full_def in_block_def)
  have fails: "append_fails_now tight_heap seventeen_full"
    by (simp add: seventeen_full_def seventeen_demo_def seventeen_cells_def fresh_def
        tight_heap_def trace_defs)
  have a: "pointer_stack_top (interp seventeen_full) \<noteq> 0"
    "\<not> logged (undo_log (interp seventeen_full)) 16 (pointer_stack_top (interp seventeen_full))"
    "append_fails (heap tight_heap) (interp seventeen_full)"
    by (simp_all add: seventeen_full_def seventeen_demo_def fresh_def tight_heap_def trace_defs)
  have v: "ip seventeen_full = 33" "code (interp seventeen_full) ! 33 = CHR ''+''"
    "cell_at (tape (interp seventeen_full)) 15016 = 0"
    "length (undo_log (interp seventeen_full)) = 16"
    by (simp_all add: seventeen_full_def seventeen_demo_def seventeen_cells_def fresh_def
        cell_at_def)
  from undo_log_exhaustion_is_silent [where i = "interp seventeen_full" and idx = 16
      and hp = "heap tight_heap" and c = seventeen_full and env = tight_heap
      and ?i1.0 = "interp seventeen_full" and ?idx1.0 = 16 and phys = 15016]
  have "(\<exists>i'. log_undo_entry (heap tight_heap) (interp seventeen_full) 16 = Inr i'
          \<and> undo_log i' = undo_log (interp seventeen_full))
   \<and> (\<exists>c' i''. run_step tight_heap seventeen_full = Inr c' \<and> ip c' = 34
          \<and> undo_log (interp c') = undo_log (interp seventeen_full)
          \<and> current_cell c' = 1
          \<and> restore_undo_entries (heap tight_heap) (interp c') = Inr i''
          \<and> cell_at (tape i'') (physical_index (tape i'') 16) = 1)"
    using cok loc blk fails a v by (simp, metis)
  then show ?thesis using create_seventeen reach_seventeen_full v(4) by simp
qed

section \<open>The claims\<close>

text \<open>
  Claim C2.  On the tape as the interpreter creates it (size 30000, offset 15000, all
  cells zero) the call for the logical index -15001 reports success and changes
  nothing, although the physical index it stands for is outside the block: the
  placeholder 0 passes the bounds test, so the tape never grows to the left.
\<close>

theorem ensure_tape_capacity_left_of_origin:
  "ensure_tape_capacity hp (snd (init_tape (\<lambda>n. True) INITIAL_TAPE_SIZE)) (- 15001)
     = (0, snd (init_tape (\<lambda>n. True) INITIAL_TAPE_SIZE))
   \<and> \<not> addressable (snd (init_tape (\<lambda>n. True) INITIAL_TAPE_SIZE)) (- 15001)
   \<and> zero_offset (snd (init_tape (\<lambda>n. True) INITIAL_TAPE_SIZE)) = 15000
   \<and> size' (snd (init_tape (\<lambda>n. True) INITIAL_TAPE_SIZE)) = 30000"
proof -
  let ?t = "snd (init_tape (\<lambda>n. True) INITIAL_TAPE_SIZE)"
  have zo: "zero_offset ?t = 15000" and sz: "size' ?t = 30000"
    by (simp_all add: init_tape_def INITIAL_TAPE_SIZE_def)
  have neg: "(- 15001 :: cint) <s 0"
    by (simp add: word_sless_alt)
  have lt: "zero_offset ?t < scast (- (- 15001 :: cint))"
    by (simp add: zo)
  have "ensure_tape_capacity hp ?t (- 15001) = (0, ?t)"
    by (rule ensure_left_no_growth [OF neg lt]) (simp add: sz)
  moreover have "\<not> addressable ?t (- 15001)"
    by (simp add: addressable_def zo)
  ultimately show ?thesis
    using zo sz by simp
qed

end
